theory Spec2Isabelle
  imports Main
begin

section \<open>The interruptible barrier (libs/core/threading/interruptible\_barrier.cpp)\<close>

text \<open>
  The class keeps the target count \<open>_count\<close>, the remaining count
  \<open>data_->threads_left\<close>, the list of passed threads behind a reference-counted pointer
  \<open>passed_threads_\<close>, the flags \<open>interrupted_\<close>, \<open>timeout_\<close>, \<open>wait_at_barrier_\<close>
  and the counter \<open>num_threads_in_wait_function_\<close>.  The counts are \<open>unsigned int\<close>;
  they are natural numbers here: \<open>--threads_left\<close> is only reached with
  \<open>threads_left \<noteq> 0\<close> as long as \<open>_count \<ge> 1\<close> (which the constructor enforces), and
  \<open>_count - threads_left\<close> is only computed with \<open>threads_left \<le> _count\<close> on every
  state a constructed barrier can reach (lemma \<open>reachable_left_le_count\<close> below);
  and the in-wait counter is only decremented when it is not zero (lemma
  \<open>in_wait_counter\<close> below).

  \<open>passed_threads_\<close> is a \<open>RefPtr<ThreadList>\<close>.  The pointer may be null, so the
  field is an option: \<open>None\<close> is the null reference, \<open>Some ps\<close> a reference to the
  list \<open>ps\<close>.  \<open>passed_threads_->clear()\<close> empties the list that is pointed to, whereas
  \<open>passed_threads_.clear()\<close> is the pointer's own operation that drops the reference
  (plugins/kinova/goto\_thread.cpp uses it in that way: ``Unref, if still refed'',
  \<open>if(__target) { __target.clear(); }\<close>, and tests \<open>if( __target )\<close> afterwards).
\<close>

type_synonym thread = nat

record barrier =
  count :: nat
  threads_left :: nat
  passed :: "thread list option"
  interrupted :: bool
  timeout :: bool
  wait_at_barrier :: bool
  num_in_wait :: nat

datatype exn =
  Exception string
  | InterruptedException nat nat

text \<open>
  The constructor with a count only (the barrier owns its mutex).  It does not initialise
  \<open>wait_at_barrier_\<close>; the indeterminate value of that member is the parameter
  \<open>garbage\<close>.  The constructor with a custom mutex, which leaves the locking around
  \<open>wait()\<close> to the caller, is not modelled.
\<close>

definition fresh :: "nat \<Rightarrow> bool \<Rightarrow> barrier" where
  "fresh c garbage =
     \<lparr>count = c, threads_left = 0, passed = Some [], interrupted = False,
      timeout = False, wait_at_barrier = garbage, num_in_wait = 0\<rparr>"

definition InterruptibleBarrier :: "nat \<Rightarrow> bool \<Rightarrow> exn + barrier" where
  "InterruptibleBarrier c garbage =
     (if c = 0 then Inl (Exception ''Barrier count must be at least 1'')
      else Inr (fresh c garbage))"

text \<open>
  The copy constructors and the assignment operators, from a reference and from a pointer
  (lines 127 to 162): their bodies only throw.
\<close>

definition copy_construct :: "barrier \<Rightarrow> exn + barrier" where
  "copy_construct b = Inl (Exception ''Barriers cannot be copied'')"

definition copy_construct_ptr :: "barrier option \<Rightarrow> exn + barrier" where
  "copy_construct_ptr p = Inl (Exception ''Barriers cannot be copied'')"

definition operator_assign :: "barrier \<Rightarrow> barrier \<Rightarrow> exn + barrier" where
  "operator_assign self b = Inl (Exception ''Barriers cannot be assigned'')"

definition operator_assign_ptr :: "barrier \<Rightarrow> barrier option \<Rightarrow> exn + barrier" where
  "operator_assign_ptr self p = Inl (Exception ''Barriers cannot be assigned'')"

definition passed_threads :: "barrier \<Rightarrow> thread list option" where
  "passed_threads b = passed b"

definition interrupt :: "barrier \<Rightarrow> barrier" where
  "interrupt b = b\<lparr>interrupted := True\<rparr>"

definition reset :: "barrier \<Rightarrow> barrier" where
  "reset b = b\<lparr>interrupted := False, timeout := False, threads_left := count b, passed := None\<rparr>"

definition no_threads_in_wait :: "barrier \<Rightarrow> bool" where
  "no_threads_in_wait b = (num_in_wait b = 0)"

subsection \<open>The critical sections of \<open>wait()\<close>\<close>

text \<open>
  With its own mutex, \<open>wait()\<close> runs as a sequence of sections that are atomic with
  respect to every other member function: from the lock in line 233 up to the first
  \<open>reltimed_wait\<close> (which releases the mutex) or up to the unlock in line 247, 280 or 298;
  from the return of \<open>reltimed_wait\<close> (which holds the mutex again) to the next
  \<open>reltimed_wait\<close> or unlock; the unlocked test of \<open>wait_at_barrier_\<close> with the call of
  \<open>Barrier::wait()\<close>; the locked decrement of lines 305 to 310; and the unlocked read of
  \<open>timeout_\<close> in the return statement.  A section returns how the caller goes on, whether
  it called \<open>wake_all()\<close>, and the new state of the barrier.

  A null \<open>passed_threads_\<close> that is dereferenced is undefined behaviour in C++; the model
  records it as the outcome \<open>Segv\<close>.
\<close>

datatype status =
  Block bool
  | Pass
  | Return bool
  | Throw exn
  | Segv

text \<open>Lines 273 to 298, with the locals \<open>waker\<close> and \<open>local_timeout\<close>.\<close>

definition post_loop :: "bool \<Rightarrow> bool \<Rightarrow> barrier \<Rightarrow> status \<times> bool \<times> barrier" where
  "post_loop waker local_timeout b =
     (let b1 = (if local_timeout then b\<lparr>timeout := True\<rparr> else b) in
      if interrupted b1
      then (Throw (InterruptedException (count b1 - threads_left b1) (count b1)), False, b1)
      else (Pass, waker \<or> local_timeout,
            if waker then b1\<lparr>wait_at_barrier := True\<rparr> else b1))"

text \<open>
  The test of the while loop in line 266: either the thread blocks in \<open>reltimed_wait\<close>
  (keeping its local \<open>waker\<close>), or it leaves the loop.
\<close>

definition wait_loop :: "bool \<Rightarrow> bool \<Rightarrow> barrier \<Rightarrow> status \<times> bool \<times> barrier" where
  "wait_loop waker local_timeout b =
     (if threads_left b \<noteq> 0 \<and> \<not> interrupted b \<and> \<not> timeout b \<and> \<not> local_timeout
      then (Block waker, False, b)
      else post_loop waker local_timeout b)"

text \<open>
  Lines 252 to 266.  \<open>cur\<close> is the result of \<open>Thread::current_thread()\<close>: \<open>None\<close>
  when it throws an \<open>Exception\<close>, which is caught and only printed, so that nothing is
  appended.
\<close>

definition register :: "thread option \<Rightarrow> barrier \<Rightarrow> status \<times> bool \<times> barrier" where
  "register cur b =
     (let b1 = b\<lparr>threads_left := threads_left b - 1\<rparr> in
      case cur of
        None \<Rightarrow> wait_loop (threads_left b1 = 0) False b1
      | Some th \<Rightarrow>
          (case passed b1 of
             None \<Rightarrow> (Segv, False, b1)
           | Some ps \<Rightarrow>
               (let b2 = b1\<lparr>passed := Some (ps @ [th])\<rparr>
                in wait_loop (threads_left b2 = 0) False b2)))"

text \<open>Lines 233 to 250, followed by the registration.\<close>

definition wait_enter :: "thread option \<Rightarrow> barrier \<Rightarrow> status \<times> bool \<times> barrier" where
  "wait_enter cur b =
     (let b0 = b\<lparr>num_in_wait := num_in_wait b + 1\<rparr> in
      if threads_left b0 = 0 then
        (let b1 = b0\<lparr>timeout := False, interrupted := False, wait_at_barrier := False,
                     threads_left := count b0\<rparr>
         in case passed b1 of
              None \<Rightarrow> (Segv, False, b1)
            | Some ps \<Rightarrow> register cur (b1\<lparr>passed := Some []\<rparr>))
      else if interrupted b0 \<or> timeout b0 then
        (Return True, False, b0\<lparr>num_in_wait := num_in_wait b0 - 1\<rparr>)
      else register cur b0)"

text \<open>
  Line 269 and the next test of the loop: \<open>signalled\<close> is the value that
  \<open>reltimed_wait\<close> returns (false when the relative timeout has elapsed).
\<close>

definition wait_resume :: "bool \<Rightarrow> bool \<Rightarrow> barrier \<Rightarrow> status \<times> bool \<times> barrier" where
  "wait_resume waker signalled b = wait_loop waker (\<not> signalled) b"

text \<open>Lines 305 to 310, and the return statement of line 312.\<close>

definition wait_leave :: "barrier \<Rightarrow> barrier" where
  "wait_leave b = b\<lparr>num_in_wait := num_in_wait b - 1\<rparr>"

definition wait_return :: "barrier \<Rightarrow> status" where
  "wait_return b = Return (\<not> timeout b)"

subsection \<open>Threads around one barrier\<close>

text \<open>
  The threads that use the barrier are numbered; each of them calls \<open>wait()\<close> at most
  once, so that a later call is the call of a further thread.  A thread is at one of
  these places: it has not called \<open>wait()\<close> yet; it is blocked in \<open>reltimed_wait\<close>
  (with its local \<open>waker\<close>, and whether \<open>wake_all()\<close> has reached it since it blocked);
  it has unlocked the mutex in line 298; it is inside \<open>Barrier::wait()\<close>; it has left
  \<open>Barrier::wait()\<close> or skipped it; it has run lines 305 to 310; it has returned a
  value; it has thrown; it has dereferenced a null pointer.
\<close>

datatype pc =
  NotCalled
  | Blocked bool bool
  | AfterSoft
  | InHard
  | AfterHard
  | Leaving
  | Returned bool
  | Raised exn
  | Crashed

record system =
  bar :: barrier
  pcs :: "pc list"

definition init :: "nat \<Rightarrow> bool \<Rightarrow> nat \<Rightarrow> system" where
  "init c garbage n = \<lparr>bar = fresh c garbage, pcs = replicate n NotCalled\<rparr>"

fun pc_of :: "status \<Rightarrow> pc" where
  "pc_of (Block w) = Blocked w False"
| "pc_of Pass = AfterSoft"
| "pc_of (Return v) = Returned v"
| "pc_of (Throw e) = Raised e"
| "pc_of Segv = Crashed"

text \<open>
  Modelled from the spec: \<open>WaitCondition\<close> (core/threading/wait\_condition.h) is not
  among the sources.  The spec lets a blocked party go on when the last party ``releases
  all waiters'', when ``the wait exceeds the given relative timeout'', or when
  \<open>interrupt()\<close> ``wakes all waiters'': \<open>wake_all\<close> marks every blocked thread as
  signalled, a signalled thread may go on with \<open>reltimed_wait\<close> returning true, and any
  blocked thread may go on with \<open>reltimed_wait\<close> returning false.
\<close>

fun wake_pc :: "pc \<Rightarrow> pc" where
  "wake_pc (Blocked w s) = Blocked w True"
| "wake_pc p = p"

definition wake_all :: "pc list \<Rightarrow> pc list" where
  "wake_all ps = map wake_pc ps"

definition finish :: "nat \<Rightarrow> status \<times> bool \<times> barrier \<Rightarrow> system \<Rightarrow> system" where
  "finish t r g =
     (case r of (st, woke, b) \<Rightarrow>
        \<lparr>bar = b, pcs = (if woke then wake_all (pcs g) else pcs g)[t := pc_of st]\<rparr>)"

text \<open>
  Modelled from the spec: the base class \<open>Barrier\<close> (core/threading/barrier.cpp) is not
  among the sources.  The spec calls it the ``hard'' stage at which ``all parties [are]
  physically present'', and a rendezvous barrier ``blocks each arriving party until a
  fixed number of parties have all arrived'': the party that makes the number of parties
  inside \<open>Barrier::wait()\<close> equal to the count releases them all.
\<close>

fun release_pc :: "pc \<Rightarrow> pc" where
  "release_pc InHard = AfterHard"
| "release_pc p = p"

definition in_hard :: "pc list \<Rightarrow> nat" where
  "in_hard ps = length (filter (\<lambda>p. p = InHard) ps)"

definition Barrier_wait :: "nat \<Rightarrow> nat \<Rightarrow> pc list \<Rightarrow> pc list" where
  "Barrier_wait c t ps =
     (if Suc (in_hard ps) = c then (map release_pc ps)[t := AfterHard]
      else ps[t := InHard])"

text \<open>Lines 300 to 303.\<close>

definition hard_sync :: "nat \<Rightarrow> system \<Rightarrow> system" where
  "hard_sync t g =
     (if wait_at_barrier (bar g)
      then g\<lparr>pcs := Barrier_wait (count (bar g)) t (pcs g)\<rparr>
      else g\<lparr>pcs := (pcs g)[t := AfterHard]\<rparr>)"

text \<open>
  One step of the system.  \<open>Call t ok\<close>: thread \<open>t\<close> calls \<open>wait()\<close>, and
  \<open>Thread::current_thread()\<close> yields \<open>t\<close> (\<open>ok\<close>) or throws.  \<open>Wake t\<close>: the
  signalled thread \<open>t\<close> goes on.  \<open>Timeout t\<close>: the relative timeout of the blocked thread
  \<open>t\<close> elapses.  \<open>Sync t\<close>, \<open>Leave t\<close>, \<open>Ret t\<close>: thread \<open>t\<close> runs lines 300 to 303,
  305 to 310, 312.  \<open>Interrupt\<close> and \<open>Reset\<close>: some other thread calls \<open>interrupt()\<close>
  or \<open>reset()\<close>.  A step that is not possible yields \<open>None\<close>; after a null dereference
  no step is possible.
\<close>

datatype event =
  Call nat bool
  | Wake nat
  | Timeout nat
  | Sync nat
  | Leave nat
  | Ret nat
  | Interrupt
  | Reset

definition at :: "system \<Rightarrow> nat \<Rightarrow> pc option" where
  "at g t = (if t < length (pcs g) then Some (pcs g ! t) else None)"

fun do_event :: "event \<Rightarrow> system \<Rightarrow> system option" where
  "do_event (Call t ok) g =
     (if at g t = Some NotCalled
      then Some (finish t (wait_enter (if ok then Some t else None) (bar g)) g)
      else None)"
| "do_event (Wake t) g =
     (case at g t of
        Some (Blocked w True) \<Rightarrow> Some (finish t (wait_resume w True (bar g)) g)
      | _ \<Rightarrow> None)"
| "do_event (Timeout t) g =
     (case at g t of
        Some (Blocked w s) \<Rightarrow> Some (finish t (wait_resume w False (bar g)) g)
      | _ \<Rightarrow> None)"
| "do_event (Sync t) g =
     (if at g t = Some AfterSoft then Some (hard_sync t g) else None)"
| "do_event (Leave t) g =
     (if at g t = Some AfterHard
      then Some \<lparr>bar = wait_leave (bar g), pcs = (pcs g)[t := Leaving]\<rparr>
      else None)"
| "do_event (Ret t) g =
     (if at g t = Some Leaving
      then Some (g\<lparr>pcs := (pcs g)[t := pc_of (wait_return (bar g))]\<rparr>)
      else None)"
| "do_event Interrupt g =
     Some \<lparr>bar = interrupt (bar g), pcs = wake_all (pcs g)\<rparr>"
| "do_event Reset g = Some (g\<lparr>bar := reset (bar g)\<rparr>)"

definition step :: "event \<Rightarrow> system \<Rightarrow> system option" where
  "step e g = (if Crashed \<in> set (pcs g) then None else do_event e g)"

fun run :: "event list \<Rightarrow> system \<Rightarrow> system option" where
  "run [] g = Some g"
| "run (e # es) g = (case step e g of None \<Rightarrow> None | Some g' \<Rightarrow> run es g')"

subsection \<open>Notions for the proofs\<close>

text \<open>A round has failed and is incomplete: a failure flag is set and parties are missing.\<close>

definition failed :: "barrier \<Rightarrow> bool" where
  "failed b = ((interrupted b \<or> timeout b) \<and> threads_left b \<noteq> 0)"

text \<open>
  One round of a fresh barrier that as many threads use as its count is.  \<open>ht u\<close> says
  that thread \<open>u\<close> has a thread instance, that is, that \<open>Thread::current_thread()\<close>
  yields it instead of throwing.  The round goes through these phases, each with the
  places its threads may be at: it fills (threads have not called yet or are blocked,
  unsignalled); it has timed out before all parties came (the registered threads \<open>R\<close>
  are on their way out and return false, the others have not called or have returned true
  at once); all parties have come and are released towards \<open>Barrier::wait()\<close>; all
  parties have left \<open>Barrier::wait()\<close> and return the negation of the timed-out flag.
  The passed list holds the registered threads that have a thread instance.
\<close>

fun fill_pc :: "pc \<Rightarrow> bool" where
  "fill_pc NotCalled = True"
| "fill_pc (Blocked w s) = (\<not> w \<and> \<not> s)"
| "fill_pc p = False"

fun tmo_pc :: "bool \<Rightarrow> pc \<Rightarrow> bool" where
  "tmo_pc reg NotCalled = (\<not> reg)"
| "tmo_pc reg (Blocked w s) = (reg \<and> \<not> w \<and> s)"
| "tmo_pc reg AfterSoft = reg"
| "tmo_pc reg AfterHard = reg"
| "tmo_pc reg Leaving = reg"
| "tmo_pc reg (Returned v) = (v = (\<not> reg))"
| "tmo_pc reg p = False"

fun rel_pc :: "pc \<Rightarrow> bool" where
  "rel_pc (Blocked w s) = (\<not> w \<and> s)"
| "rel_pc AfterSoft = True"
| "rel_pc InHard = True"
| "rel_pc p = False"

fun leave_pc :: "bool \<Rightarrow> pc \<Rightarrow> bool" where
  "leave_pc tmo AfterHard = True"
| "leave_pc tmo Leaving = True"
| "leave_pc tmo (Returned v) = (v = (\<not> tmo))"
| "leave_pc tmo p = False"

definition filling :: "(nat \<Rightarrow> bool) \<Rightarrow> barrier \<Rightarrow> pc list \<Rightarrow> bool" where
  "filling ht b P =
     (threads_left b \<noteq> 0 \<and> \<not> timeout b \<and> \<not> interrupted b \<and> \<not> wait_at_barrier b \<and>
      (\<forall>u < length P. fill_pc (P ! u)) \<and>
      threads_left b = card {u. u < length P \<and> P ! u = NotCalled} \<and>
      (\<exists>ps. passed b = Some ps \<and> distinct ps \<and>
            set ps = {u. u < length P \<and> P ! u \<noteq> NotCalled \<and> ht u}))"

definition timed_out :: "(nat \<Rightarrow> bool) \<Rightarrow> barrier \<Rightarrow> pc list \<Rightarrow> bool" where
  "timed_out ht b P =
     (threads_left b \<noteq> 0 \<and> timeout b \<and> \<not> interrupted b \<and> \<not> wait_at_barrier b \<and>
      (\<exists>ps R. passed b = Some ps \<and> distinct ps \<and> set ps = {u. u \<in> R \<and> ht u} \<and>
         (\<forall>u < length P. tmo_pc (u \<in> R) (P ! u))))"

definition released :: "(nat \<Rightarrow> bool) \<Rightarrow> barrier \<Rightarrow> pc list \<Rightarrow> bool" where
  "released ht b P =
     (threads_left b = 0 \<and> wait_at_barrier b \<and> \<not> interrupted b \<and>
      (\<forall>u < length P. rel_pc (P ! u)) \<and>
      (\<exists>u < length P. P ! u \<noteq> InHard) \<and>
      (\<exists>ps. passed b = Some ps \<and> distinct ps \<and> set ps = {u. u < length P \<and> ht u}))"

definition leaving :: "(nat \<Rightarrow> bool) \<Rightarrow> barrier \<Rightarrow> pc list \<Rightarrow> bool" where
  "leaving ht b P =
     (threads_left b = 0 \<and> \<not> interrupted b \<and>
      (\<forall>u < length P. leave_pc (timeout b) (P ! u)) \<and>
      (\<exists>ps. passed b = Some ps \<and> distinct ps \<and> set ps = {u. u < length P \<and> ht u}))"

definition round_inv :: "(nat \<Rightarrow> bool) \<Rightarrow> system \<Rightarrow> bool" where
  "round_inv ht g =
     (count (bar g) = length (pcs g) \<and> pcs g \<noteq> [] \<and>
      ((\<exists>garbage. g = init (length (pcs g)) garbage (length (pcs g))) \<or>
       filling ht (bar g) (pcs g) \<or> timed_out ht (bar g) (pcs g) \<or>
       released ht (bar g) (pcs g) \<or> leaving ht (bar g) (pcs g)))"

text \<open>
  The events of such a round: a thread that calls has \<open>Thread::current_thread()\<close> work
  or throw as \<open>ht\<close> says, timeouts may elapse, nobody calls \<open>interrupt()\<close> or
  \<open>reset()\<close>.
\<close>

fun round_event :: "(nat \<Rightarrow> bool) \<Rightarrow> event \<Rightarrow> bool" where
  "round_event ht (Call t ok) = (ok = ht t)"
| "round_event ht Interrupt = False"
| "round_event ht Reset = False"
| "round_event ht e = True"

text \<open>
  How many steps a thread has before it at most, and their sum over the threads; and
  whether a thread is inside \<open>wait()\<close>.
\<close>

fun rank :: "pc \<Rightarrow> nat" where
  "rank NotCalled = 6"
| "rank (Blocked w s) = 5"
| "rank AfterSoft = 4"
| "rank InHard = 3"
| "rank AfterHard = 2"
| "rank Leaving = 1"
| "rank p = 0"

definition work :: "pc list \<Rightarrow> nat" where
  "work P = sum_list (map rank P)"

fun inside :: "pc \<Rightarrow> bool" where
  "inside (Blocked w s) = True"
| "inside AfterSoft = True"
| "inside InHard = True"
| "inside AfterHard = True"
| "inside Leaving = True"
| "inside p = False"


text \<open>
  For every run of the system, whatever its events: as long as nothing has crashed, the
  count is not zero, the remaining count is at most the count, and while some thread is
  blocked and not signalled, parties are missing and no failure flag is set.
\<close>

definition quiet :: "barrier \<Rightarrow> bool" where
  "quiet b = (threads_left b \<noteq> 0 \<and> \<not> interrupted b \<and> \<not> timeout b)"

fun unsig :: "pc \<Rightarrow> bool" where
  "unsig (Blocked w s) = (\<not> s)"
| "unsig p = False"

definition blocked_ok :: "system \<Rightarrow> bool" where
  "blocked_ok g =
     (Crashed \<in> set (pcs g) \<or>
      (count (bar g) \<noteq> 0 \<and> threads_left (bar g) \<le> count (bar g) \<and>
       ((\<exists>p \<in> set (pcs g). unsig p) \<longrightarrow> quiet (bar g))))"

text \<open>
  The calls that the in-wait counter counts: those that have incremented it and have not
  decremented it, which includes the calls that have thrown or crashed.
\<close>

fun counted :: "pc \<Rightarrow> bool" where
  "counted NotCalled = False"
| "counted Leaving = False"
| "counted (Returned v) = False"
| "counted p = True"

definition counted_calls :: "pc list \<Rightarrow> nat" where
  "counted_calls P = length (filter counted P)"

text \<open>
  A system whose threads have all raised or are inside \<open>Barrier::wait()\<close> stays as it
  is: only \<open>interrupt()\<close> and \<open>reset()\<close> are possible, and they change the barrier only.
\<close>

fun stuck_pc :: "pc \<Rightarrow> bool" where
  "stuck_pc InHard = True"
| "stuck_pc (Raised x) = True"
| "stuck_pc p = False"

section \<open>Interface observers (libs/blackboard/interface\_observer.h)\<close>

text \<open>
  The header declares, for an observer, the two maps \<open>bbio_observed_create_\<close> and
  \<open>bbio_observed_destroy_\<close> of type \<open>LockMap<std::string, std::list<std::string>>\<close>,
  from a type pattern to the list of id patterns registered with it, and the function
  \<open>bbio_add_observed_create(type_pattern, id_pattern = "*")\<close>.  A map is an association
  list with one entry for a key.
\<close>

type_synonym ObservedInterfaceLockMap = "(string \<times> string list) list"

record observer =
  bbio_observed_create :: ObservedInterfaceLockMap
  bbio_observed_destroy :: ObservedInterfaceLockMap

text \<open>
  Modelled from the spec: the body of \<open>bbio_add_observed_create\<close>
  (blackboard/interface\_observer.cpp) is not among the sources.  The spec: it ``adds a
  pattern to the calling observer's set; idempotent'', and ``duplicate (type-pattern,
  id-pattern) registrations are idempotent''.
\<close>

fun add_observed :: "string \<Rightarrow> string \<Rightarrow> ObservedInterfaceLockMap \<Rightarrow> ObservedInterfaceLockMap" where
  "add_observed tp ip [] = [(tp, [ip])]"
| "add_observed tp ip ((k, ids) # m) =
     (if k = tp then (k, if ip \<in> set ids then ids else ids @ [ip]) # m
      else (k, ids) # add_observed tp ip m)"

definition bbio_add_observed_create :: "string \<Rightarrow> string \<Rightarrow> observer \<Rightarrow> observer" where
  "bbio_add_observed_create type_pattern id_pattern ob =
     ob\<lparr>bbio_observed_create := add_observed type_pattern id_pattern (bbio_observed_create ob)\<rparr>"

text \<open>The call with the type pattern only: the default argument of the declaration.\<close>

definition bbio_add_observed_create_default :: "string \<Rightarrow> observer \<Rightarrow> observer" where
  "bbio_add_observed_create_default type_pattern ob =
     bbio_add_observed_create type_pattern ''*'' ob"

text \<open>
  Modelled from the spec: the pattern matching of the notifier (blackboard/internal/
  notifier.cpp) is not among the sources.  The spec: ``pattern matching treats \<open>*\<close> as
  `match any sequence' and is otherwise literal''.  \<open>glob_match\<close> is the matcher;
  \<open>matches\<close> says the same in the spec's words: a \<open>*\<close> stands for any sequence of
  characters, any other character for itself.
\<close>

fun glob_match :: "string \<Rightarrow> string \<Rightarrow> bool" where
  "glob_match [] s = (s = [])"
| "glob_match (p # ps) [] = (p = CHR ''*'' \<and> glob_match ps [])"
| "glob_match (p # ps) (c # cs) =
     (if p = CHR ''*'' then glob_match ps (c # cs) \<or> glob_match (p # ps) cs
      else p = c \<and> glob_match ps cs)"

inductive matches :: "string \<Rightarrow> string \<Rightarrow> bool" where
  empty: "matches [] []"
| star: "matches ps s \<Longrightarrow> matches (CHR ''*'' # ps) (w @ s)"
| literal: "p \<noteq> CHR ''*'' \<Longrightarrow> matches ps s \<Longrightarrow> matches (p # ps) (p # s)"

text \<open>
  Modelled from the spec: \<open>notify_created\<close> (blackboard/internal/notifier.cpp) is not
  among the sources.  The spec: ``the notifier iterates all registered observers, and for
  each, tests the event's (type, id) against every registered pattern pair, invoking the
  observer's \<open>interface_created\<close> callback once per matching observer (never more than
  once per observer per event, even if multiple patterns match)'', in registration order.
  The registered observers are a list of numbered observers; the result is the list of
  the callbacks made, each the number of the observer called.
\<close>

definition interested :: "ObservedInterfaceLockMap \<Rightarrow> string \<Rightarrow> string \<Rightarrow> bool" where
  "interested m ty ident =
     list_ex (\<lambda>(tp, ids). glob_match tp ty \<and> list_ex (\<lambda>ip. glob_match ip ident) ids) m"

definition notify_created :: "string \<Rightarrow> string \<Rightarrow> (nat \<times> observer) list \<Rightarrow> nat list" where
  "notify_created ty ident obs =
     map fst (filter (\<lambda>(i, ob). interested (bbio_observed_create ob) ty ident) obs)"

text \<open>The pattern pairs that an observer has registered for creation events.\<close>

definition observes :: "observer \<Rightarrow> string \<Rightarrow> string \<Rightarrow> bool" where
  "observes ob tp ip = (\<exists>ids. (tp, ids) \<in> set (bbio_observed_create ob) \<and> ip \<in> set ids)"

section \<open>The wake adapter (libs/blackboard/utils/on\_message\_waker.h)\<close>

text \<open>
  libs/core/threading/thread.h declares the operation modes of a thread and, among its
  members, \<open>op_mode_\<close>, \<open>pending_wakeups_\<close>, \<open>coalesce_wakeups_\<close> and the
  \<open>sleep_condition_\<close>; the number of times that condition has been signalled stands for
  it here.  \<open>BlackBoardOnMessageWaker\<close> keeps the thread it wakes; the interface it
  listens to is the one it was constructed with.
\<close>

datatype OpMode =
  OPMODE_CONTINUOUS
  | OPMODE_WAITFORWAKEUP

record managed_thread =
  op_mode :: OpMode
  pending_wakeups :: nat
  coalesce_wakeups :: bool
  sleep_signals :: nat

record waker =
  waker_interface :: nat
  waker_thread :: nat

text \<open>
  Modelled from the spec: the body of \<open>Thread::wakeup()\<close> (core/threading/thread.cpp) is
  not among the sources.  The spec: it ``increments the pending-wakeup count (coalesced
  unless configured otherwise) and signals the sleep condition'', where coalesced means
  ``at most one'' pending wakeup.
\<close>

definition wakeup :: "managed_thread \<Rightarrow> managed_thread" where
  "wakeup th =
     th\<lparr>pending_wakeups := (if coalesce_wakeups th then 1 else pending_wakeups th + 1),
        sleep_signals := sleep_signals th + 1\<rparr>"

text \<open>
  Modelled from the spec: the body of \<open>bb_interface_message_received\<close>
  (blackboard/utils/on\_message\_waker.cpp) is not among the sources.  The spec: ``its
  callback body is exactly `if the thread is in WaitForWakeup mode, call \<open>wakeup()\<close> on
  it.'\,''  The threads are a store from thread numbers to threads.
\<close>

definition bb_interface_message_received ::
  "waker \<Rightarrow> (nat \<Rightarrow> managed_thread) \<Rightarrow> (nat \<Rightarrow> managed_thread)" where
  "bb_interface_message_received w ths =
     (if op_mode (ths (waker_thread w)) = OPMODE_WAITFORWAKEUP
      then ths(waker_thread w := wakeup (ths (waker_thread w)))
      else ths)"

text \<open>
  Modelled from the spec: \<open>notify_message\<close> (blackboard/internal/notifier.cpp) is not
  among the sources.  The spec: it ``delivers to every listener bound to that exact
  instance, in registration order''.
\<close>

definition notify_message ::
  "nat \<Rightarrow> waker list \<Rightarrow> (nat \<Rightarrow> managed_thread) \<Rightarrow> (nat \<Rightarrow> managed_thread)" where
  "notify_message iface listeners ths =
     fold bb_interface_message_received
       (filter (\<lambda>w. waker_interface w = iface) listeners) ths"

section \<open>Properties of the barrier\<close>

lemma InterruptibleBarrier_fresh:
  "0 < c \<Longrightarrow> InterruptibleBarrier c garbage = Inr (fresh c garbage)"
  "InterruptibleBarrier 0 garbage = Inl (Exception ''Barrier count must be at least 1'')"
  by (simp_all add: InterruptibleBarrier_def)

subsection \<open>A failed, incomplete round stays as it is until \<open>reset()\<close>\<close>

lemma wait_enter_failed:
  "failed b \<Longrightarrow> wait_enter cur b = (Return True, False, b)"
  by (auto simp: failed_def wait_enter_def Let_def)

lemma wait_loop_failed:
  "failed b \<Longrightarrow> wait_loop w lt b = post_loop w lt b"
  by (auto simp: failed_def wait_loop_def)

lemma post_loop_failed:
  assumes "failed b" "post_loop w lt b = (st, woke, b')"
  shows "failed b' \<and> threads_left b' = threads_left b \<and> passed b' = passed b \<and>
    count b' = count b \<and> interrupted b' = interrupted b \<and> (timeout b \<longrightarrow> timeout b') \<and> st \<noteq> Segv"
  using assms by (auto simp: failed_def post_loop_def Let_def split: if_splits)

lemma wake_all_length [simp]: "length (wake_all ps) = length ps"
  by (simp add: wake_all_def)

lemma wake_pc_Crashed [simp]: "wake_pc p = Crashed \<longleftrightarrow> p = Crashed" "Crashed = wake_pc p \<longleftrightarrow> p = Crashed"
  by (cases p; auto)+

lemma wake_all_Crashed [simp]: "Crashed \<in> set (wake_all ps) \<longleftrightarrow> Crashed \<in> set ps"
  by (induction ps) (auto simp: wake_all_def)

lemma release_pc_Crashed [simp]: "release_pc p = Crashed \<longleftrightarrow> p = Crashed" "Crashed = release_pc p \<longleftrightarrow> p = Crashed"
  by (cases p; auto)+

lemma release_all_Crashed [simp]: "Crashed \<in> set (map release_pc ps) \<longleftrightarrow> Crashed \<in> set ps"
  by (induction ps) auto

lemma in_set_upd: "x \<in> set (ps[t := y]) \<Longrightarrow> x = y \<or> x \<in> set ps"
  using set_update_subset_insert[of ps t y] by auto

lemma Barrier_wait_Crashed:
  "Crashed \<in> set (Barrier_wait c t ps) \<Longrightarrow> Crashed \<in> set ps"
  by (auto simp: Barrier_wait_def split: if_splits dest!: in_set_upd)

lemma bar_finish [simp]: "bar (finish t (st, woke, b) g) = b"
  by (simp add: finish_def)

lemma Crashed_finish:
  "Crashed \<in> set (pcs (finish t (st, woke, b) g)) \<Longrightarrow> st = Segv \<or> Crashed \<in> set (pcs g)"
  by (cases st) (auto simp: finish_def split: if_splits dest!: in_set_upd)

lemma failed_resume:
  assumes "failed (bar g)" "g' = finish t (wait_resume w sg (bar g)) g" "Crashed \<notin> set (pcs g)"
  shows "failed (bar g') \<and> threads_left (bar g') = threads_left (bar g)
     \<and> passed (bar g') = passed (bar g) \<and> count (bar g') = count (bar g)
     \<and> (interrupted (bar g) \<longrightarrow> interrupted (bar g'))
     \<and> (timeout (bar g) \<longrightarrow> timeout (bar g'))
     \<and> Crashed \<notin> set (pcs g')"
proof -
  obtain st woke b' where r: "post_loop w (\<not> sg) (bar g) = (st, woke, b')"
    by (cases "post_loop w (\<not> sg) (bar g)") auto
  from post_loop_failed[OF assms(1) r] assms(2,3) r show ?thesis
    by (auto simp: wait_resume_def wait_loop_failed[OF assms(1)] dest!: Crashed_finish)
qed

lemma failed_step:
  assumes "failed (bar g)" "e \<noteq> Reset" "step e g = Some g'"
  shows "failed (bar g') \<and> threads_left (bar g') = threads_left (bar g)
     \<and> passed (bar g') = passed (bar g) \<and> count (bar g') = count (bar g)
     \<and> (interrupted (bar g) \<longrightarrow> interrupted (bar g'))
     \<and> (timeout (bar g) \<longrightarrow> timeout (bar g'))
     \<and> Crashed \<notin> set (pcs g')"
proof -
  from assms(3) have nc: "Crashed \<notin> set (pcs g)" and d: "do_event e g = Some g'"
    by (auto simp: step_def split: if_splits)
  show ?thesis
  proof (cases e)
    case (Call t ok)
    with assms(1) d nc show ?thesis
      by (auto simp: wait_enter_failed split: if_splits dest!: Crashed_finish)
  next
    case (Wake t)
    with d obtain w where "g' = finish t (wait_resume w True (bar g)) g"
      by (auto split: option.splits pc.splits bool.splits)
    from failed_resume[OF assms(1) this nc] show ?thesis .
  next
    case (Timeout t)
    with d obtain w where "g' = finish t (wait_resume w False (bar g)) g"
      by (auto split: option.splits pc.splits)
    from failed_resume[OF assms(1) this nc] show ?thesis .
  next
    case (Sync t)
    with assms(1) d nc show ?thesis
      by (auto simp: hard_sync_def split: if_splits dest!: in_set_upd Barrier_wait_Crashed)
  next
    case (Leave t)
    with assms(1) d nc show ?thesis
      by (auto simp: wait_leave_def failed_def split: if_splits dest!: in_set_upd)
  next
    case (Ret t)
    with assms(1) d nc show ?thesis
      by (auto simp: wait_return_def split: if_splits dest!: in_set_upd)
  next
    case Interrupt
    with assms(1) d nc show ?thesis
      by (auto simp: interrupt_def failed_def)
  next
    case Reset
    with assms show ?thesis by simp
  qed
qed

lemma failed_run:
  assumes "failed (bar g)" "Reset \<notin> set tr" "run tr g = Some g'" "Crashed \<notin> set (pcs g)"
  shows "failed (bar g') \<and> threads_left (bar g') = threads_left (bar g)
     \<and> passed (bar g') = passed (bar g) \<and> count (bar g') = count (bar g)
     \<and> (interrupted (bar g) \<longrightarrow> interrupted (bar g'))
     \<and> (timeout (bar g) \<longrightarrow> timeout (bar g'))
     \<and> Crashed \<notin> set (pcs g')"
  using assms
proof (induction tr arbitrary: g)
  case Nil
  then show ?case by simp
next
  case (Cons e es)
  from Cons.prems(3) obtain g1 where s: "step e g = Some g1" and r: "run es g1 = Some g'"
    by (auto split: option.splits)
  from Cons.prems(2) have "e \<noteq> Reset" "Reset \<notin> set es" by auto
  from failed_step[OF Cons.prems(1) this(1) s] Cons.IH[OF _ this(2) r]
  show ?case by simp
qed

subsection \<open>The phases of a round are kept by every step\<close>

lemma pcs_finish [simp]:
  "pcs (finish t (st, woke, b) g) = (if woke then wake_all (pcs g) else pcs g)[t := pc_of st]"
  by (simp add: finish_def)

lemma nth_wake_all [simp]: "u < length P \<Longrightarrow> wake_all P ! u = wake_pc (P ! u)"
  by (simp add: wake_all_def)

lemma at_Some [simp]: "at g t = Some p \<longleftrightarrow> t < length (pcs g) \<and> pcs g ! t = p"
  by (auto simp: at_def)

lemma card_remove_one:
  assumes "t < n" "Q t"
  shows "card {u. u < n \<and> Q u \<and> u \<noteq> t} = card {u. u < n \<and> Q u} - 1"
proof -
  have "{u. u < n \<and> Q u \<and> u \<noteq> t} = {u. u < n \<and> Q u} - {t}" by auto
  moreover have "t \<in> {u. u < n \<and> Q u}" using assms by simp
  ultimately show ?thesis by simp
qed

lemma card_zero_none:
  assumes "card {u. u < (n::nat) \<and> Q u} = 0"
  shows "\<forall>u < n. \<not> Q u"
proof -
  have "finite {u. u < n \<and> Q u}" by simp
  with assms have "{u. u < n \<and> Q u} = {}" by (simp only: card_eq_0_iff) simp
  then show ?thesis by blast
qed

lemma post_loop_count: "post_loop w lt b = (st, woke, b') \<Longrightarrow> count b' = count b"
  by (auto simp: post_loop_def Let_def split: if_splits)

lemma wait_loop_count: "wait_loop w lt b = (st, woke, b') \<Longrightarrow> count b' = count b"
  by (auto simp: wait_loop_def split: if_splits dest: post_loop_count)

lemma register_count: "register cur b = (st, woke, b') \<Longrightarrow> count b' = count b"
  by (auto simp: register_def Let_def split: option.splits dest!: wait_loop_count)

lemma wait_enter_count: "wait_enter cur b = (st, woke, b') \<Longrightarrow> count b' = count b"
  by (auto simp: wait_enter_def Let_def split: option.splits if_splits dest!: register_count)

lemma finish_count_length:
  assumes "\<And>st woke b'. r = (st, woke, b') \<Longrightarrow> count b' = count (bar g)"
  shows "count (bar (finish t r g)) = count (bar g) \<and> length (pcs (finish t r g)) = length (pcs g)"
  using assms by (cases r) (simp add: finish_def)

lemma Barrier_wait_length [simp]: "length (Barrier_wait c t P) = length P"
  by (simp add: Barrier_wait_def)

lemma do_event_count_length:
  assumes "do_event e g = Some g'"
  shows "count (bar g') = count (bar g) \<and> length (pcs g') = length (pcs g)"
proof (cases e)
  case (Call t ok)
  with assms show ?thesis
    by (auto split: if_splits intro!: finish_count_length dest: wait_enter_count simp del: at_Some)
next
  case (Wake t)
  with assms show ?thesis
    by (auto split: option.splits pc.splits bool.splits simp: wait_resume_def
        intro!: finish_count_length dest: wait_loop_count simp del: at_Some)
next
  case (Timeout t)
  with assms show ?thesis
    by (auto split: option.splits pc.splits simp: wait_resume_def
        intro!: finish_count_length dest: wait_loop_count simp del: at_Some)
next
  case (Sync t)
  with assms show ?thesis by (auto simp: hard_sync_def split: if_splits)
next
  case (Leave t)
  with assms show ?thesis by (auto simp: wait_leave_def split: if_splits)
next
  case (Ret t)
  with assms show ?thesis by (auto split: if_splits)
next
  case Interrupt
  with assms show ?thesis by (auto simp: interrupt_def)
next
  case Reset
  with assms show ?thesis by (auto simp: reset_def)
qed

lemma fill_pc_iff: "fill_pc p \<longleftrightarrow> p = NotCalled \<or> p = Blocked False False"
  by (cases p) auto

text \<open>The registration of a caller while the round fills.\<close>

lemma register_filling:
  assumes nc: "t < length P" "P ! t = NotCalled"
    and fl: "\<not> timeout b" "\<not> interrupted b" "\<not> wait_at_barrier b"
      "\<forall>u < length P. fill_pc (P ! u)"
      "threads_left b = card {u. u < length P \<and> P ! u = NotCalled}"
      "passed b = Some ps" "distinct ps"
      "set ps = {u. u < length P \<and> P ! u \<noteq> NotCalled \<and> ht u}"
    and r: "register (if ht t then Some t else None) b = (st, woke, b')"
    and P': "P' = (if woke then wake_all P else P)[t := pc_of st]"
  shows "filling ht b' P' \<or> released ht b' P'"
proof -
  define ps' where "ps' = (if ht t then ps @ [t] else ps)"
  define b2 where "b2 = (if ht t
      then b\<lparr>threads_left := threads_left b - 1, passed := Some (ps @ [t])\<rparr>
      else b\<lparr>threads_left := threads_left b - 1\<rparr>)"
  have r2: "wait_loop (threads_left b2 = 0) False b2 = (st, woke, b')"
    using r fl(6) by (simp add: register_def b2_def split: if_splits)
  have b2: "threads_left b2 = threads_left b - 1" "passed b2 = Some ps'" "\<not> timeout b2"
    "\<not> interrupted b2" "\<not> wait_at_barrier b2"
    using fl(1,2,3,6) by (simp_all add: b2_def ps'_def)
  have tn: "t \<notin> set ps" using fl(8) nc by simp
  then have dps: "distinct ps'" using fl(7) by (simp add: ps'_def)
  have sps: "set ps' = {u. u < length P \<and> (u = t \<or> P ! u \<noteq> NotCalled) \<and> ht u}"
    using fl(8) nc(1) by (auto simp: ps'_def)
  have rem: "card {u. u < length P \<and> P ! u = NotCalled \<and> u \<noteq> t}
        = card {u. u < length P \<and> P ! u = NotCalled} - 1"
    using nc by (intro card_remove_one) simp_all
  show ?thesis
  proof (cases "threads_left b - 1 = 0")
    case False
    with r2 b2 have st: "st = Block False" "woke = False" and b': "b' = b2"
      by (auto simp: wait_loop_def)
    have P'': "P' = P[t := Blocked False False]" by (simp add: P' st)
    have s1: "{u. u < length P \<and> P[t := Blocked False False] ! u = NotCalled}
       = {u. u < length P \<and> P ! u = NotCalled \<and> u \<noteq> t}"
      using nc by (auto simp: nth_list_update)
    have s2: "{u. u < length P \<and> P[t := Blocked False False] ! u \<noteq> NotCalled \<and> ht u}
       = {u. u < length P \<and> (u = t \<or> P ! u \<noteq> NotCalled) \<and> ht u}"
      using nc by (auto simp: nth_list_update)
    have a: "\<forall>u < length P'. fill_pc (P' ! u)"
      using fl(4) nc(1) by (auto simp add: P'' nth_list_update)
    have c: "threads_left b' = card {u. u < length P' \<and> P' ! u = NotCalled}"
      using rem s1 fl(5) by (simp add: b' b2(1) P'')
    have d: "set ps' = {u. u < length P' \<and> P' ! u \<noteq> NotCalled \<and> ht u}"
      using s2 sps by (simp add: P'')
    have "filling ht b' P'"
      unfolding filling_def using a c d dps False b2 by (simp add: b')
    then show ?thesis ..
  next
    case True
    with r2 b2 have st: "st = Pass" "woke = True"
      and b': "threads_left b' = 0" "passed b' = Some ps'" "wait_at_barrier b'"
        "\<not> interrupted b'"
      by (auto simp: wait_loop_def post_loop_def)
    from rem have "card {u. u < length P \<and> P ! u = NotCalled \<and> u \<noteq> t} = 0"
      using True fl(5) by metis
    from card_zero_none[OF this]
    have oth: "\<forall>u < length P. u \<noteq> t \<longrightarrow> P ! u = Blocked False False"
      using fl(4) by (auto simp add: fill_pc_iff)
    have s2: "{u. u < length P \<and> (u = t \<or> P ! u \<noteq> NotCalled) \<and> ht u} = {u. u < length P \<and> ht u}"
      using nc oth by auto
    have P'': "P' = (wake_all P)[t := AfterSoft]" by (simp add: P' st)
    have a: "\<forall>u < length P'. rel_pc (P' ! u)"
      using oth nc(1) by (auto simp add: P'' nth_list_update)
    have c: "\<exists>u < length P'. P' ! u \<noteq> InHard"
      using nc(1) by (auto simp add: P'' intro!: exI[of _ t])
    have d: "set ps' = {u. u < length P' \<and> ht u}"
      using s2 sps by (simp add: P'')
    have "released ht b' P'"
      unfolding released_def using a c d dps b' by simp
    then show ?thesis ..
  qed
qed

lemma filling_pc: "filling ht b P \<Longrightarrow> t < length P \<Longrightarrow> fill_pc (P ! t)"
  unfolding filling_def by blast

lemma released_pc: "released ht b P \<Longrightarrow> t < length P \<Longrightarrow> rel_pc (P ! t)"
  unfolding released_def by blast

lemma leaving_pc: "leaving ht b P \<Longrightarrow> t < length P \<Longrightarrow> leave_pc (timeout b) (P ! t)"
  unfolding leaving_def by blast

lemma timed_out_pc: "timed_out ht b P \<Longrightarrow> t < length P \<Longrightarrow> \<exists>r. tmo_pc r (P ! t)"
  unfolding timed_out_def by blast

lemma timed_outI:
  assumes "threads_left b \<noteq> 0" "timeout b" "\<not> interrupted b" "\<not> wait_at_barrier b"
    "passed b = Some ps" "distinct ps" "set ps = {u. u \<in> R \<and> ht u}"
    "\<forall>u < length P. tmo_pc (u \<in> R) (P ! u)"
  shows "timed_out ht b P"
  unfolding timed_out_def using assms by blast

lemma card_all_lt: "card {u. u < (n::nat)} = n"
proof -
  have "{u. u < n} = {..< n}" by auto
  then show ?thesis by simp
qed

lemma round_call:
  assumes inv: "round_inv ht g" and ev: "do_event (Call t (ht t)) g = Some g'"
  shows "round_inv ht g'"
proof -
  let ?P = "pcs g" and ?b = "bar g"
  from ev have t: "t < length ?P" "?P ! t = NotCalled"
    and g': "g' = finish t (wait_enter (if ht t then Some t else None) ?b) g"
    by (auto split: if_splits)
  from do_event_count_length[OF ev] inv
  have cl: "count (bar g') = length (pcs g')" "pcs g' \<noteq> []"
    by (auto simp: round_inv_def)
  let ?cur = "if ht t then Some t else None"
  obtain st woke b' where r: "wait_enter ?cur ?b = (st, woke, b')"
    by (cases "wait_enter ?cur ?b") auto
  have g'': "bar g' = b'" "pcs g' = (if woke then wake_all ?P else ?P)[t := pc_of st]"
    by (simp_all add: g' r)
  from inv consider
    (initial) garbage where "g = init (length ?P) garbage (length ?P)"
    | (filling) "filling ht ?b ?P" | (timed_out) "timed_out ht ?b ?P"
    | (released) "released ht ?b ?P" | (leaving) "leaving ht ?b ?P"
    by (auto simp: round_inv_def)
  then have "filling ht (bar g') (pcs g') \<or> timed_out ht (bar g') (pcs g') \<or>
       released ht (bar g') (pcs g') \<or> leaving ht (bar g') (pcs g')"
  proof cases
    case initial
    let ?n = "length ?P"
    define b1 where "b1 = \<lparr>count = ?n, threads_left = ?n, passed = Some [], interrupted = False,
      timeout = False, wait_at_barrier = False, num_in_wait = 1\<rparr>"
    have P: "?P = replicate ?n NotCalled" and b: "?b = fresh ?n garbage"
      using initial by (simp_all add: init_def) (metis init_def system.select_convs)+
    have "wait_enter ?cur ?b = register ?cur b1"
      by (simp add: b fresh_def wait_enter_def b1_def)
    with r have r1: "register ?cur b1 = (st, woke, b')" by simp
    have all: "\<forall>u < ?n. ?P ! u = NotCalled"
      using P by (metis nth_replicate)
    then have c: "{u. u < ?n \<and> ?P ! u = NotCalled} = {u. u < ?n}"
      and e: "{u. u < ?n \<and> ?P ! u \<noteq> NotCalled \<and> ht u} = {}" by auto
    have "filling ht b' (pcs g') \<or> released ht b' (pcs g')"
    proof (rule register_filling[where ht = ht, OF t _ _ _ _ _ _ _ _ r1 g''(2)])
      show "threads_left b1 = card {u. u < ?n \<and> ?P ! u = NotCalled}"
        by (simp only: c card_all_lt) (simp add: b1_def)
      show "set [] = {u. u < ?n \<and> ?P ! u \<noteq> NotCalled \<and> ht u}"
        by (simp only: e) simp
      show "\<forall>u<?n. fill_pc (?P ! u)"
        using all by simp
    qed (simp_all add: b1_def)
    then show ?thesis by (auto simp: g''(1))
  next
    case filling
    then obtain ps where fl: "threads_left ?b \<noteq> 0" "\<not> timeout ?b" "\<not> interrupted ?b"
      "\<not> wait_at_barrier ?b"
      "\<forall>u < length ?P. fill_pc (?P ! u)"
      "threads_left ?b = card {u. u < length ?P \<and> ?P ! u = NotCalled}"
      "passed ?b = Some ps" "distinct ps"
      "set ps = {u. u < length ?P \<and> ?P ! u \<noteq> NotCalled \<and> ht u}"
      unfolding filling_def by blast
    define b1 where "b1 = ?b\<lparr>num_in_wait := num_in_wait ?b + 1\<rparr>"
    have "wait_enter ?cur ?b = register ?cur b1"
      using fl(1,2,3) by (simp add: wait_enter_def b1_def)
    with r have r1: "register ?cur b1 = (st, woke, b')" by simp
    have "filling ht b' (pcs g') \<or> released ht b' (pcs g')"
      by (rule register_filling[where ht = ht and ps = ps, OF t _ _ _ _ _ _ _ _ r1 g''(2)])
         (use fl in \<open>simp_all add: b1_def\<close>)
    then show ?thesis by (auto simp: g''(1))
  next
    case timed_out
    then obtain ps R where to: "threads_left ?b \<noteq> 0" "timeout ?b" "\<not> interrupted ?b"
      "\<not> wait_at_barrier ?b" "passed ?b = Some ps" "distinct ps" "set ps = {u. u \<in> R \<and> ht u}"
      and pcs: "\<forall>u < length ?P. tmo_pc (u \<in> R) (?P ! u)"
      unfolding timed_out_def by blast
    have "failed ?b" using to by (simp add: failed_def)
    from wait_enter_failed[OF this] r have st: "st = Return True" "woke = False" "b' = ?b"
      by simp_all
    have pc': "\<forall>u < length ?P. tmo_pc (u \<in> R) (?P[t := Returned True] ! u)"
      using pcs t by (auto simp: nth_list_update)
    have "timed_out ht (bar g') (pcs g')"
      by (rule timed_outI[where ps = ps and R = R]) (use to pc' in \<open>simp_all add: g'' st\<close>)
    then show ?thesis by simp
  next
    case released
    from released_pc[OF this t(1)] t(2) have False by simp
    then show ?thesis ..
  next
    case leaving
    from leaving_pc[OF this t(1)] t(2) have False by simp
    then show ?thesis ..
  qed
  with cl show ?thesis by (simp add: round_inv_def)
qed

lemma tmo_pc_wake: "tmo_pc reg p \<Longrightarrow> tmo_pc reg (wake_pc p)"
  by (cases p) auto

lemma rel_pc_wake: "rel_pc p \<Longrightarrow> rel_pc (wake_pc p)"
  by (cases p) auto

lemma fill_pc_wake: "fill_pc p \<Longrightarrow> tmo_pc (p \<noteq> NotCalled) (wake_pc p)"
  by (cases p) auto

lemma post_loop_plain:
  "\<not> interrupted b \<Longrightarrow> post_loop False False b = (Pass, False, b)"
  "\<not> interrupted b \<Longrightarrow> post_loop False True b = (Pass, True, b\<lparr>timeout := True\<rparr>)"
  by (simp_all add: post_loop_def)

lemma round_phases:
  assumes "round_inv ht g" "t < length (pcs g)" "pcs g ! t \<noteq> NotCalled"
  shows "filling ht (bar g) (pcs g) \<or> timed_out ht (bar g) (pcs g) \<or>
       released ht (bar g) (pcs g) \<or> leaving ht (bar g) (pcs g)"
proof -
  have "g \<noteq> init n garbage n" for n garbage
    using assms(2,3) by (auto simp: init_def)
  with assms(1) show ?thesis unfolding round_inv_def by blast
qed

lemma round_invI:
  assumes "round_inv ht g" "count (bar g') = count (bar g)" "length (pcs g') = length (pcs g)"
    "filling ht (bar g') (pcs g') \<or> timed_out ht (bar g') (pcs g') \<or>
       released ht (bar g') (pcs g') \<or> leaving ht (bar g') (pcs g')"
  shows "round_inv ht g'"
  using assms unfolding round_inv_def by auto

lemma round_wake:
  assumes inv: "round_inv ht g" and ev: "do_event (Wake t) g = Some g'"
  shows "round_inv ht g'"
proof -
  let ?P = "pcs g" and ?b = "bar g"
  from ev obtain w where t: "t < length ?P" "?P ! t = Blocked w True"
    and g': "g' = finish t (wait_resume w True ?b) g"
    by (auto split: option.splits pc.splits bool.splits)
  from t have "?P ! t \<noteq> NotCalled" by simp
  from round_phases[OF inv t(1) this]
  have "timed_out ht (bar g') (pcs g') \<or> released ht (bar g') (pcs g')"
  proof (elim disjE)
    assume "filling ht ?b ?P"
    from filling_pc[OF this t(1)] t(2) have False by simp
    then show ?thesis ..
  next
    assume "leaving ht ?b ?P"
    from leaving_pc[OF this t(1)] t(2) have False by simp
    then show ?thesis ..
  next
    assume "timed_out ht ?b ?P"
    then obtain ps R where to: "threads_left ?b \<noteq> 0" "timeout ?b" "\<not> interrupted ?b"
      "\<not> wait_at_barrier ?b" "passed ?b = Some ps" "distinct ps" "set ps = {u. u \<in> R \<and> ht u}"
      and pcs: "\<forall>u < length ?P. tmo_pc (u \<in> R) (?P ! u)"
      unfolding timed_out_def by blast
    from pcs t have w: "\<not> w" "t \<in> R" by auto
    have r: "wait_resume w True ?b = (Pass, False, ?b)"
      using to w by (simp add: wait_resume_def wait_loop_def post_loop_plain)
    have pc': "\<forall>u < length ?P. tmo_pc (u \<in> R) (?P[t := AfterSoft] ! u)"
      using pcs t w by (auto simp: nth_list_update)
    have "timed_out ht (bar g') (pcs g')"
      by (rule timed_outI[where ps = ps and R = R]) (use to pc' in \<open>simp_all add: g' r\<close>)
    then show ?thesis ..
  next
    assume "released ht ?b ?P"
    then obtain ps where rl: "threads_left ?b = 0" "wait_at_barrier ?b" "\<not> interrupted ?b"
      "passed ?b = Some ps" "distinct ps" "set ps = {u. u < length ?P \<and> ht u}"
      and pcs: "\<forall>u < length ?P. rel_pc (?P ! u)"
      unfolding released_def by blast
    from pcs t have w: "\<not> w" by auto
    have r: "wait_resume w True ?b = (Pass, False, ?b)"
      using rl w by (simp add: wait_resume_def wait_loop_def post_loop_plain)
    have a: "\<forall>u < length ?P. rel_pc (?P[t := AfterSoft] ! u)"
      using pcs t by (auto simp: nth_list_update)
    have b: "\<exists>u < length ?P. ?P[t := AfterSoft] ! u \<noteq> InHard"
      using t by (auto intro!: exI[of _ t])
    have "released ht (bar g') (pcs g')"
      unfolding released_def using rl a b by (simp add: g' r)
    then show ?thesis ..
  qed
  then show ?thesis
    using do_event_count_length[OF ev] by (intro round_invI[OF inv]) auto
qed

lemma round_timeout:
  assumes inv: "round_inv ht g" and ev: "do_event (Timeout t) g = Some g'"
  shows "round_inv ht g'"
proof -
  let ?P = "pcs g" and ?b = "bar g"
  from ev obtain w s where t: "t < length ?P" "?P ! t = Blocked w s"
    and g': "g' = finish t (wait_resume w False ?b) g"
    by (auto split: option.splits pc.splits)
  from t have "?P ! t \<noteq> NotCalled" by simp
  from round_phases[OF inv t(1) this]
  have "timed_out ht (bar g') (pcs g') \<or> released ht (bar g') (pcs g')"
  proof (elim disjE)
    assume "leaving ht ?b ?P"
    from leaving_pc[OF this t(1)] t(2) have False by simp
    then show ?thesis ..
  next
    assume "filling ht ?b ?P"
    then obtain ps where fl: "threads_left ?b \<noteq> 0" "\<not> timeout ?b" "\<not> interrupted ?b"
      "\<not> wait_at_barrier ?b"
      "passed ?b = Some ps" "distinct ps"
      "set ps = {u. u < length ?P \<and> ?P ! u \<noteq> NotCalled \<and> ht u}"
      and pcs: "\<forall>u < length ?P. fill_pc (?P ! u)"
      unfolding filling_def by blast
    from pcs t have w: "\<not> w" by auto
    have r: "wait_resume w False ?b = (Pass, True, ?b\<lparr>timeout := True\<rparr>)"
      using fl w by (simp add: wait_resume_def wait_loop_def post_loop_plain)
    define R where "R = {u. u < length ?P \<and> ?P ! u \<noteq> NotCalled}"
    have "tmo_pc (u \<in> R) ((wake_all ?P)[t := AfterSoft] ! u)" if "u < length ?P" for u
    proof (cases "u = t")
      case True
      with t show ?thesis by (simp add: R_def)
    next
      case False
      from that pcs have "tmo_pc (?P ! u \<noteq> NotCalled) (wake_pc (?P ! u))"
        by (simp add: fill_pc_wake)
      with False that show ?thesis by (simp add: R_def)
    qed
    then have pc': "\<forall>u < length ?P. tmo_pc (u \<in> R) ((wake_all ?P)[t := AfterSoft] ! u)"
      by blast
    have sR: "set ps = {u. u \<in> R \<and> ht u}" using fl(7) by (auto simp: R_def)
    have "timed_out ht (bar g') (pcs g')"
      by (rule timed_outI[where ps = ps and R = R])
         (use fl(1,3,4,5,6) sR pc' in \<open>simp_all add: g' r\<close>)
    then show ?thesis ..
  next
    assume "timed_out ht ?b ?P"
    then obtain ps R where to: "threads_left ?b \<noteq> 0" "timeout ?b" "\<not> interrupted ?b"
      "\<not> wait_at_barrier ?b" "passed ?b = Some ps" "distinct ps" "set ps = {u. u \<in> R \<and> ht u}"
      and pcs: "\<forall>u < length ?P. tmo_pc (u \<in> R) (?P ! u)"
      unfolding timed_out_def by blast
    from pcs t have w: "\<not> w" "t \<in> R" by auto
    have r: "wait_resume w False ?b = (Pass, True, ?b\<lparr>timeout := True\<rparr>)"
      using to w by (simp add: wait_resume_def wait_loop_def post_loop_plain)
    have pc': "\<forall>u < length ?P. tmo_pc (u \<in> R) ((wake_all ?P)[t := AfterSoft] ! u)"
      using pcs t w by (auto simp: nth_list_update tmo_pc_wake)
    have "timed_out ht (bar g') (pcs g')"
      by (rule timed_outI[where ps = ps and R = R]) (use to pc' in \<open>simp_all add: g' r\<close>)
    then show ?thesis ..
  next
    assume "released ht ?b ?P"
    then obtain ps where rl: "threads_left ?b = 0" "wait_at_barrier ?b" "\<not> interrupted ?b"
      "passed ?b = Some ps" "distinct ps" "set ps = {u. u < length ?P \<and> ht u}"
      and pcs: "\<forall>u < length ?P. rel_pc (?P ! u)"
      unfolding released_def by blast
    from pcs t have w: "\<not> w" by auto
    have r: "wait_resume w False ?b = (Pass, True, ?b\<lparr>timeout := True\<rparr>)"
      using rl w by (simp add: wait_resume_def wait_loop_def post_loop_plain)
    have a: "\<forall>u < length ?P. rel_pc ((wake_all ?P)[t := AfterSoft] ! u)"
      using pcs t by (auto simp: nth_list_update rel_pc_wake)
    have b: "\<exists>u < length ?P. (wake_all ?P)[t := AfterSoft] ! u \<noteq> InHard"
      using t by (auto intro!: exI[of _ t])
    have "released ht (bar g') (pcs g')"
      unfolding released_def using rl a b by (simp add: g' r)
    then show ?thesis ..
  qed
  then show ?thesis
    using do_event_count_length[OF ev] by (intro round_invI[OF inv]) auto
qed

lemma in_hard_card: "in_hard P = card {u. u < length P \<and> P ! u = InHard}"
  unfolding in_hard_def by (rule length_filter_conv_card)

lemma card_others: "t < n \<Longrightarrow> card {u. u < (n::nat) \<and> u \<noteq> t} = n - 1"
proof -
  assume "t < n"
  have "{u. u < n \<and> u \<noteq> t} = {..< n} - {t}" by auto
  with \<open>t < n\<close> show ?thesis by simp
qed

lemma last_at_hard:
  assumes "t < length P" "P ! t \<noteq> InHard" "Suc (in_hard P) = length P"
  shows "\<forall>u < length P. u \<noteq> t \<longrightarrow> P ! u = InHard"
proof -
  let ?A = "{u. u < length P \<and> P ! u = InHard}" and ?B = "{u. u < length P \<and> u \<noteq> t}"
  have "?A \<subseteq> ?B" using assms(2) by auto
  moreover have "card ?A = card ?B"
    using assms(1,3) by (simp add: in_hard_card[symmetric] card_others)
  moreover have "finite ?B" by simp
  ultimately have "?A = ?B" by (rule card_subset_eq[rotated])
  then show ?thesis by blast
qed

lemma not_last_at_hard:
  assumes "t < length P" "P ! t \<noteq> InHard" "Suc (in_hard P) \<noteq> length P"
  shows "\<exists>u < length P. u \<noteq> t \<and> P ! u \<noteq> InHard"
proof (rule ccontr)
  assume "\<not> ?thesis"
  then have "{u. u < length P \<and> P ! u = InHard} = {u. u < length P \<and> u \<noteq> t}"
    using assms(2) by auto
  then have "in_hard P = length P - 1"
    using assms(1) by (simp add: in_hard_card card_others)
  with assms(1,3) show False by simp
qed

lemma round_sync:
  assumes inv: "round_inv ht g" and ev: "do_event (Sync t) g = Some g'"
  shows "round_inv ht g'"
proof -
  let ?P = "pcs g" and ?b = "bar g"
  from ev have t: "t < length ?P" "?P ! t = AfterSoft" and g': "g' = hard_sync t g"
    by (auto split: if_splits)
  from inv have cnt: "count ?b = length ?P" by (simp add: round_inv_def)
  from t have "?P ! t \<noteq> NotCalled" by simp
  from round_phases[OF inv t(1) this]
  have "timed_out ht (bar g') (pcs g') \<or> released ht (bar g') (pcs g') \<or> leaving ht (bar g') (pcs g')"
  proof (elim disjE)
    assume "leaving ht ?b ?P"
    from leaving_pc[OF this t(1)] t(2) have False by simp
    then show ?thesis ..
  next
    assume "filling ht ?b ?P"
    from filling_pc[OF this t(1)] t(2) have False by simp
    then show ?thesis ..
  next
    assume "timed_out ht ?b ?P"
    then obtain ps R where to: "threads_left ?b \<noteq> 0" "timeout ?b" "\<not> interrupted ?b"
      "\<not> wait_at_barrier ?b" "passed ?b = Some ps" "distinct ps" "set ps = {u. u \<in> R \<and> ht u}"
      and pcs: "\<forall>u < length ?P. tmo_pc (u \<in> R) (?P ! u)"
      unfolding timed_out_def by blast
    from pcs t have w: "t \<in> R" by auto
    have pc': "\<forall>u < length ?P. tmo_pc (u \<in> R) (?P[t := AfterHard] ! u)"
      using pcs t w by (auto simp: nth_list_update)
    have "timed_out ht (bar g') (pcs g')"
      by (rule timed_outI[where ps = ps and R = R]) (use to pc' in \<open>simp_all add: g' hard_sync_def\<close>)
    then show ?thesis by simp
  next
    assume "released ht ?b ?P"
    then obtain ps where rl: "threads_left ?b = 0" "wait_at_barrier ?b" "\<not> interrupted ?b"
      "passed ?b = Some ps" "distinct ps" "set ps = {u. u < length ?P \<and> ht u}"
      and pcs: "\<forall>u < length ?P. rel_pc (?P ! u)"
      unfolding released_def by blast
    have ni: "?P ! t \<noteq> InHard" using t by simp
    show ?thesis
    proof (cases "Suc (in_hard ?P) = length ?P")
      case True
      then have P': "pcs g' = (map release_pc ?P)[t := AfterHard]" and b': "bar g' = ?b"
        using rl(2) cnt by (simp_all add: g' hard_sync_def Barrier_wait_def)
      from last_at_hard[OF t(1) ni True]
      have "\<forall>u < length ?P. leave_pc (timeout ?b) ((map release_pc ?P)[t := AfterHard] ! u)"
        using t(1) by (auto simp: nth_list_update)
      then have "leaving ht (bar g') (pcs g')"
        unfolding leaving_def using rl by (simp add: P' b')
      then show ?thesis by simp
    next
      case False
      then have P': "pcs g' = ?P[t := InHard]" and b': "bar g' = ?b"
        using rl(2) cnt by (simp_all add: g' hard_sync_def Barrier_wait_def)
      from not_last_at_hard[OF t(1) ni False]
      have a: "\<exists>u < length ?P. ?P[t := InHard] ! u \<noteq> InHard"
        by (auto simp: nth_list_update)
      have "\<forall>u < length ?P. rel_pc (?P[t := InHard] ! u)"
        using pcs t(1) by (auto simp: nth_list_update)
      with a have "released ht (bar g') (pcs g')"
        unfolding released_def using rl by (simp add: P' b')
      then show ?thesis by simp
    qed
  qed
  then show ?thesis
    using do_event_count_length[OF ev] by (intro round_invI[OF inv]) auto
qed

lemma round_leave:
  assumes inv: "round_inv ht g" and ev: "do_event (Leave t) g = Some g'"
  shows "round_inv ht g'"
proof -
  let ?P = "pcs g" and ?b = "bar g"
  from ev have t: "t < length ?P" "?P ! t = AfterHard"
    and g': "bar g' = wait_leave ?b" "pcs g' = ?P[t := Leaving]"
    by (auto split: if_splits)
  from t have "?P ! t \<noteq> NotCalled" by simp
  from round_phases[OF inv t(1) this]
  have "timed_out ht (bar g') (pcs g') \<or> leaving ht (bar g') (pcs g')"
  proof (elim disjE)
    assume "released ht ?b ?P"
    from released_pc[OF this t(1)] t(2) have False by simp
    then show ?thesis ..
  next
    assume "filling ht ?b ?P"
    from filling_pc[OF this t(1)] t(2) have False by simp
    then show ?thesis ..
  next
    assume "timed_out ht ?b ?P"
    then obtain ps R where to: "threads_left ?b \<noteq> 0" "timeout ?b" "\<not> interrupted ?b"
      "\<not> wait_at_barrier ?b" "passed ?b = Some ps" "distinct ps" "set ps = {u. u \<in> R \<and> ht u}"
      and pcs: "\<forall>u < length ?P. tmo_pc (u \<in> R) (?P ! u)"
      unfolding timed_out_def by blast
    from pcs t have w: "t \<in> R" by auto
    have pc': "\<forall>u < length ?P. tmo_pc (u \<in> R) (?P[t := Leaving] ! u)"
      using pcs t w by (auto simp: nth_list_update)
    have "timed_out ht (bar g') (pcs g')"
      by (rule timed_outI[where ps = ps and R = R]) (use to pc' in \<open>simp_all add: g' wait_leave_def\<close>)
    then show ?thesis by simp
  next
    assume "leaving ht ?b ?P"
    then obtain ps where lv: "threads_left ?b = 0" "\<not> interrupted ?b"
      "passed ?b = Some ps" "distinct ps" "set ps = {u. u < length ?P \<and> ht u}"
      and pcs: "\<forall>u < length ?P. leave_pc (timeout ?b) (?P ! u)"
      unfolding leaving_def by blast
    have "\<forall>u < length ?P. leave_pc (timeout ?b) (?P[t := Leaving] ! u)"
      using pcs t by (auto simp: nth_list_update)
    then have "leaving ht (bar g') (pcs g')"
      unfolding leaving_def using lv by (simp add: g' wait_leave_def)
    then show ?thesis by simp
  qed
  then show ?thesis
    using do_event_count_length[OF ev] by (intro round_invI[OF inv]) auto
qed

lemma round_ret:
  assumes inv: "round_inv ht g" and ev: "do_event (Ret t) g = Some g'"
  shows "round_inv ht g'"
proof -
  let ?P = "pcs g" and ?b = "bar g"
  from ev have t: "t < length ?P" "?P ! t = Leaving"
    and g': "bar g' = ?b" "pcs g' = ?P[t := Returned (\<not> timeout ?b)]"
    by (auto split: if_splits simp: wait_return_def)
  from t have "?P ! t \<noteq> NotCalled" by simp
  from round_phases[OF inv t(1) this]
  have "timed_out ht (bar g') (pcs g') \<or> leaving ht (bar g') (pcs g')"
  proof (elim disjE)
    assume "released ht ?b ?P"
    from released_pc[OF this t(1)] t(2) have False by simp
    then show ?thesis ..
  next
    assume "filling ht ?b ?P"
    from filling_pc[OF this t(1)] t(2) have False by simp
    then show ?thesis ..
  next
    assume "timed_out ht ?b ?P"
    then obtain ps R where to: "threads_left ?b \<noteq> 0" "timeout ?b" "\<not> interrupted ?b"
      "\<not> wait_at_barrier ?b" "passed ?b = Some ps" "distinct ps" "set ps = {u. u \<in> R \<and> ht u}"
      and pcs: "\<forall>u < length ?P. tmo_pc (u \<in> R) (?P ! u)"
      unfolding timed_out_def by blast
    from pcs t have w: "t \<in> R" by auto
    have pc': "\<forall>u < length ?P. tmo_pc (u \<in> R) (?P[t := Returned False] ! u)"
      using pcs t w by (auto simp: nth_list_update)
    have "timed_out ht (bar g') (pcs g')"
      by (rule timed_outI[where ps = ps and R = R]) (use to pc' in \<open>simp_all add: g'\<close>)
    then show ?thesis by simp
  next
    assume "leaving ht ?b ?P"
    then obtain ps where lv: "threads_left ?b = 0" "\<not> interrupted ?b"
      "passed ?b = Some ps" "distinct ps" "set ps = {u. u < length ?P \<and> ht u}"
      and pcs: "\<forall>u < length ?P. leave_pc (timeout ?b) (?P ! u)"
      unfolding leaving_def by blast
    have "\<forall>u < length ?P. leave_pc (timeout ?b) (?P[t := Returned (\<not> timeout ?b)] ! u)"
      using pcs t by (auto simp: nth_list_update)
    then have "leaving ht (bar g') (pcs g')"
      unfolding leaving_def using lv by (simp add: g')
    then show ?thesis by simp
  qed
  then show ?thesis
    using do_event_count_length[OF ev] by (intro round_invI[OF inv]) auto
qed

lemma round_step:
  assumes "round_inv ht g" "round_event ht e" "step e g = Some g'"
  shows "round_inv ht g'"
proof -
  from assms(3) have d: "do_event e g = Some g'"
    by (simp add: step_def split: if_splits)
  show ?thesis
  proof (cases e)
    case (Call t ok)
    with assms(2) have "e = Call t (ht t)" by simp
    with d assms(1) show ?thesis by (auto intro: round_call)
  next
    case (Wake t)
    with d assms(1) show ?thesis by (auto intro: round_wake)
  next
    case (Timeout t)
    with d assms(1) show ?thesis by (auto intro: round_timeout)
  next
    case (Sync t)
    with d assms(1) show ?thesis by (auto intro: round_sync)
  next
    case (Leave t)
    with d assms(1) show ?thesis by (auto intro: round_leave)
  next
    case (Ret t)
    with d assms(1) show ?thesis by (auto intro: round_ret)
  next
    case Interrupt
    with assms(2) show ?thesis by simp
  next
    case Reset
    with assms(2) show ?thesis by simp
  qed
qed

lemma round_run:
  assumes "round_inv ht g" "\<forall>e \<in> set tr. round_event ht e" "run tr g = Some g'"
  shows "round_inv ht g'"
  using assms
proof (induction tr arbitrary: g)
  case Nil
  then show ?case by simp
next
  case (Cons e es)
  from Cons.prems(3) obtain g1 where s: "step e g = Some g1" and r: "run es g1 = Some g'"
    by (auto split: option.splits)
  from Cons.prems(2) have "round_event ht e" "\<forall>e \<in> set es. round_event ht e" by auto
  from Cons.IH[OF round_step[OF Cons.prems(1) this(1) s] this(2) r]
  show ?case .
qed

lemma round_init: "0 < n \<Longrightarrow> round_inv ht (init n garbage n)"
  by (auto simp: round_inv_def init_def fresh_def)

subsection \<open>Every step of a round brings it nearer to its end\<close>

lemma work_update:
  "t < length P \<Longrightarrow> work (P[t := p]) + rank (P ! t) = work P + rank p"
proof (induction P arbitrary: t)
  case Nil
  then show ?case by simp
next
  case (Cons a P)
  then show ?case by (cases t) (auto simp: work_def)
qed

lemma rank_wake [simp]: "rank (wake_pc p) = rank p"
  by (cases p) auto

lemma work_wake_all [simp]: "work (wake_all P) = work P"
  by (induction P) (auto simp: work_def wake_all_def)

lemma rank_release: "rank (release_pc p) \<le> rank p"
  by (cases p) auto

lemma work_release: "work (map release_pc P) \<le> work P"
  by (induction P) (auto simp: work_def intro: add_mono rank_release)

lemma work_lower:
  assumes "t < length P" "rank p < rank (P ! t)"
  shows "work (P[t := p]) < work P"
  using work_update[OF assms(1), of p] assms(2) by linarith

lemma work_finish:
  assumes "t < length (pcs g)" "rank (pc_of st) < rank (pcs g ! t)"
  shows "work (pcs (finish t (st, woke, b) g)) < work (pcs g)"
proof -
  let ?Q = "if woke then wake_all (pcs g) else pcs g"
  have "t < length ?Q" "rank (pc_of st) < rank (?Q ! t)" "work ?Q = work (pcs g)"
    using assms by auto
  from work_lower[OF this(1,2)] this(3) show ?thesis by simp
qed

lemma wait_resume_pass:
  assumes "\<not> interrupted b" "threads_left b = 0 \<or> timeout b \<or> \<not> sig"
  shows "\<exists>woke b'. wait_resume w sig b = (Pass, woke, b')"
  using assms by (auto simp: wait_resume_def wait_loop_def post_loop_def Let_def)

text \<open>A thread that goes on in a round never blocks again.\<close>

lemma round_resume_pass:
  assumes inv: "round_inv ht g" and t: "t < length (pcs g)" "pcs g ! t = Blocked w s"
    and sg: "s \<or> \<not> sig"
  shows "\<exists>woke b'. wait_resume w sig (bar g) = (Pass, woke, b')"
proof -
  let ?P = "pcs g" and ?b = "bar g"
  from t have "?P ! t \<noteq> NotCalled" by simp
  from round_phases[OF inv t(1) this] show ?thesis
  proof (elim disjE)
    assume "filling ht ?b ?P"
    with t have "\<not> interrupted ?b" "\<not> s" by (auto simp: filling_def)
    with sg show ?thesis by (intro wait_resume_pass) auto
  next
    assume "timed_out ht ?b ?P"
    then have "\<not> interrupted ?b" "timeout ?b" by (auto simp: timed_out_def)
    then show ?thesis by (intro wait_resume_pass) auto
  next
    assume "released ht ?b ?P"
    then have "\<not> interrupted ?b" "threads_left ?b = 0" by (auto simp: released_def)
    then show ?thesis by (intro wait_resume_pass) auto
  next
    assume "leaving ht ?b ?P"
    from leaving_pc[OF this t(1)] t(2) show ?thesis by simp
  qed
qed

lemma round_work:
  assumes inv: "round_inv ht g" and e: "round_event ht e" and s: "step e g = Some g'"
  shows "work (pcs g') < work (pcs g)"
proof -
  from s have d: "do_event e g = Some g'"
    by (simp add: step_def split: if_splits)
  show ?thesis
  proof (cases e)
    case (Call t ok)
    obtain st woke b' where r: "wait_enter (if ok then Some t else None) (bar g) = (st, woke, b')"
      by (cases "wait_enter (if ok then Some t else None) (bar g)") auto
    from Call d have t: "t < length (pcs g)" "pcs g ! t = NotCalled"
      and g': "g' = finish t (wait_enter (if ok then Some t else None) (bar g)) g"
      by (auto split: if_splits)
    have "rank (pc_of st) < 6" by (cases st) auto
    then have "work (pcs (finish t (st, woke, b') g)) < work (pcs g)"
      using t by (intro work_finish) auto
    then show ?thesis unfolding g' r .
  next
    case (Wake t)
    with d obtain w where t: "t < length (pcs g)" "pcs g ! t = Blocked w True"
      and g': "g' = finish t (wait_resume w True (bar g)) g"
      by (auto split: option.splits pc.splits bool.splits)
    from round_resume_pass[OF inv t, of True] obtain woke b'
      where r: "wait_resume w True (bar g) = (Pass, woke, b')" by auto
    have "work (pcs (finish t (Pass, woke, b') g)) < work (pcs g)"
      using t by (intro work_finish) auto
    then show ?thesis unfolding g' r .
  next
    case (Timeout t)
    with d obtain w sg where t: "t < length (pcs g)" "pcs g ! t = Blocked w sg"
      and g': "g' = finish t (wait_resume w False (bar g)) g"
      by (auto split: option.splits pc.splits)
    from round_resume_pass[OF inv t, of False] obtain woke b'
      where r: "wait_resume w False (bar g) = (Pass, woke, b')" by auto
    have "work (pcs (finish t (Pass, woke, b') g)) < work (pcs g)"
      using t by (intro work_finish) auto
    then show ?thesis unfolding g' r .
  next
    case (Sync t)
    with d have t: "t < length (pcs g)" "pcs g ! t = AfterSoft" and g': "g' = hard_sync t g"
      by (auto split: if_splits)
    have "work ((map release_pc (pcs g))[t := AfterHard]) < work (map release_pc (pcs g))"
      using t by (intro work_lower) auto
    with work_release[of "pcs g"]
    have "work ((map release_pc (pcs g))[t := AfterHard]) < work (pcs g)" by simp
    moreover have "work ((pcs g)[t := InHard]) < work (pcs g)"
      "work ((pcs g)[t := AfterHard]) < work (pcs g)"
      using t by (auto intro!: work_lower)
    ultimately show ?thesis
      by (simp add: g' hard_sync_def Barrier_wait_def)
  next
    case (Leave t)
    with d show ?thesis by (auto split: if_splits intro!: work_lower)
  next
    case (Ret t)
    with d show ?thesis by (auto split: if_splits intro!: work_lower simp: wait_return_def)
  next
    case Interrupt
    with e show ?thesis by simp
  next
    case Reset
    with e show ?thesis by simp
  qed
qed

lemma round_length:
  assumes "round_inv ht g" "\<forall>e \<in> set tr. round_event ht e" "run tr g = Some g'"
  shows "length tr + work (pcs g') \<le> work (pcs g)"
  using assms
proof (induction tr arbitrary: g)
  case Nil
  then show ?case by simp
next
  case (Cons e es)
  from Cons.prems(3) obtain g1 where s: "step e g = Some g1" and r: "run es g1 = Some g'"
    by (auto split: option.splits)
  from Cons.prems(2) have e: "round_event ht e" "\<forall>e \<in> set es. round_event ht e" by auto
  from Cons.IH[OF round_step[OF Cons.prems(1) e(1) s] e(2) r]
    round_work[OF Cons.prems(1) e(1) s]
  show ?case by simp
qed

lemma work_init: "work (pcs (init c garbage n)) = 6 * n"
  by (induction n) (auto simp: init_def work_def)

subsection \<open>What the phases of a round imply\<close>


lemma round_pc_cases:
  assumes "round_inv ht g" "t < length (pcs g)"
  shows "pcs g ! t = NotCalled \<or> fill_pc (pcs g ! t) \<or> rel_pc (pcs g ! t) \<or>
         leave_pc (timeout (bar g)) (pcs g ! t) \<or> (\<exists>r. tmo_pc r (pcs g ! t))"
proof (cases "pcs g ! t = NotCalled")
  case True
  then show ?thesis by simp
next
  case False
  from round_phases[OF assms this] assms(2) show ?thesis
    unfolding filling_def timed_out_def released_def leaving_def by blast
qed

lemma round_no_exception:
  assumes "round_inv ht g" "t < length (pcs g)"
  shows "pcs g ! t \<noteq> Raised x \<and> pcs g ! t \<noteq> Crashed"
  using round_pc_cases[OF assms] by (cases "pcs g ! t") auto

lemma round_no_crash: "round_inv ht g \<Longrightarrow> Crashed \<notin> set (pcs g)"
  using round_no_exception by (metis in_set_conv_nth)

lemma round_returned:
  assumes inv: "round_inv ht g" and t: "t < length (pcs g)" "pcs g ! t = Returned v"
  shows "v = (\<not> timeout (bar g)) \<or> (v \<and> (\<forall>ps. passed (bar g) = Some ps \<longrightarrow> t \<notin> set ps))"
proof -
  let ?P = "pcs g" and ?b = "bar g"
  from t have "?P ! t \<noteq> NotCalled" by simp
  from round_phases[OF inv t(1) this] show ?thesis
  proof (elim disjE)
    assume "filling ht ?b ?P"
    from filling_pc[OF this t(1)] t(2) show ?thesis by simp
  next
    assume "timed_out ht ?b ?P"
    then obtain ps R where to: "timeout ?b" "passed ?b = Some ps" "set ps = {u. u \<in> R \<and> ht u}"
      and pcs: "\<forall>u < length ?P. tmo_pc (u \<in> R) (?P ! u)"
      unfolding timed_out_def by blast
    from pcs t have "v = (t \<notin> R)" by auto
    with to show ?thesis by auto
  next
    assume "released ht ?b ?P"
    from released_pc[OF this t(1)] t(2) show ?thesis by simp
  next
    assume "leaving ht ?b ?P"
    from leaving_pc[OF this t(1)] t(2) show ?thesis by simp
  qed
qed

lemma step_enabled:
  assumes "Crashed \<notin> set (pcs g)" "t < length (pcs g)"
  shows "pcs g ! t = NotCalled \<Longrightarrow> step (Call t ok) g \<noteq> None"
    "pcs g ! t = Blocked w True \<Longrightarrow> step (Wake t) g \<noteq> None"
    "pcs g ! t = Blocked w s \<Longrightarrow> step (Timeout t) g \<noteq> None"
    "pcs g ! t = AfterSoft \<Longrightarrow> step (Sync t) g \<noteq> None"
    "pcs g ! t = AfterHard \<Longrightarrow> step (Leave t) g \<noteq> None"
    "pcs g ! t = Leaving \<Longrightarrow> step (Ret t) g \<noteq> None"
  using assms by (simp_all add: step_def at_def)

text \<open>While a thread is inside \<open>wait()\<close>, some thread inside \<open>wait()\<close> can take a step.\<close>

lemma round_progress_inside:
  assumes inv: "round_inv ht g" and t: "t < length (pcs g)" "inside (pcs g ! t)"
  shows "\<exists>u. step (Wake u) g \<noteq> None \<or> step (Timeout u) g \<noteq> None \<or> step (Sync u) g \<noteq> None
           \<or> step (Leave u) g \<noteq> None \<or> step (Ret u) g \<noteq> None"
proof -
  let ?P = "pcs g" and ?b = "bar g"
  note en = step_enabled[OF round_no_crash[OF inv]]
  have direct: ?thesis if "u < length ?P" "?P ! u \<noteq> InHard" "inside (?P ! u)" for u
  proof -
    from that(2,3) consider w s where "?P ! u = Blocked w s" | "?P ! u = AfterSoft"
      | "?P ! u = AfterHard" | "?P ! u = Leaving"
      by (cases "?P ! u") auto
    then show ?thesis
    proof cases
      case 1
      from en(3)[OF that(1) this] show ?thesis by blast
    next
      case 2
      from en(4)[OF that(1) this] show ?thesis by blast
    next
      case 3
      from en(5)[OF that(1) this] show ?thesis by blast
    next
      case 4
      from en(6)[OF that(1) this] show ?thesis by blast
    qed
  qed
  show ?thesis
  proof (cases "?P ! t = InHard")
    case False
    with t show ?thesis by (intro direct[of t])
  next
    case True
    from t True have "?P ! t \<noteq> NotCalled" by simp
    from round_phases[OF inv t(1) this] have "released ht ?b ?P"
      using t(1) True by (auto simp: filling_def timed_out_def leaving_def)
    then obtain u where u: "u < length ?P" "?P ! u \<noteq> InHard" "rel_pc (?P ! u)"
      by (auto simp: released_def)
    then have "inside (?P ! u)" by (cases "?P ! u") auto
    with u show ?thesis by (intro direct[of u])
  qed
qed









text \<open>In a round, a timed-out flag that is set stays set.\<close>

lemma round_timeout_stays:
  assumes inv: "round_inv ht g" and e: "round_event ht e" and s: "step e g = Some g'"
    and tm: "timeout (bar g)"
  shows "timeout (bar g')"
proof -
  from s have d: "do_event e g = Some g'"
    by (simp add: step_def split: if_splits)
  have post: "timeout b'" if "post_loop w lt (bar g) = (st, woke, b')" for w lt st woke b'
    using that tm by (auto simp: post_loop_def Let_def split: if_splits)
  have resume: "timeout b'" if "wait_resume w sg (bar g) = (st, woke, b')" for w sg st woke b'
    using that tm post by (auto simp: wait_resume_def wait_loop_def)
  show ?thesis
  proof (cases e)
    case (Call t ok)
    with d have t: "t < length (pcs g)" "pcs g ! t = NotCalled"
      and g': "g' = finish t (wait_enter (if ok then Some t else None) (bar g)) g"
      by (auto split: if_splits)
    have "threads_left (bar g) \<noteq> 0"
    proof
      assume z: "threads_left (bar g) = 0"
      from inv consider garbage where "g = init (length (pcs g)) garbage (length (pcs g))"
        | "filling ht (bar g) (pcs g)" | "timed_out ht (bar g) (pcs g)"
        | "released ht (bar g) (pcs g)" | "leaving ht (bar g) (pcs g)"
        unfolding round_inv_def by blast
      then show False
      proof cases
        case 1
        then have "bar g = fresh (length (pcs g)) garbage"
          by (metis init_def system.select_convs(1))
        with tm show False by (simp add: fresh_def)
      next
        case 2
        with tm show False by (simp add: filling_def)
      next
        case 3
        with z show False by (simp add: timed_out_def)
      next
        case 4
        from released_pc[OF this t(1)] t(2) show False by simp
      next
        case 5
        from leaving_pc[OF this t(1)] t(2) show False by simp
      qed
    qed
    with tm have "failed (bar g)" by (simp add: failed_def)
    from wait_enter_failed[OF this] tm show ?thesis by (simp add: g')
  next
    case (Wake t)
    with d obtain w where g': "g' = finish t (wait_resume w True (bar g)) g"
      by (auto split: option.splits pc.splits bool.splits)
    obtain st woke b' where r: "wait_resume w True (bar g) = (st, woke, b')"
      by (cases "wait_resume w True (bar g)") auto
    from resume[OF r] show ?thesis by (simp add: g' r)
  next
    case (Timeout t)
    with d obtain w where g': "g' = finish t (wait_resume w False (bar g)) g"
      by (auto split: option.splits pc.splits)
    obtain st woke b' where r: "wait_resume w False (bar g) = (st, woke, b')"
      by (cases "wait_resume w False (bar g)") auto
    from resume[OF r] show ?thesis by (simp add: g' r)
  next
    case (Sync t)
    with d tm show ?thesis by (auto simp: hard_sync_def split: if_splits)
  next
    case (Leave t)
    with d tm show ?thesis by (auto simp: wait_leave_def split: if_splits)
  next
    case (Ret t)
    with d tm show ?thesis by (auto split: if_splits)
  qed (use e in simp_all)
qed

subsection \<open>Blocked threads that nobody has signalled\<close>

lemma unsig_wake [simp]: "\<not> unsig (wake_pc p)"
  by (cases p) auto

lemma unsig_release [simp]: "unsig (release_pc p) = unsig p"
  by (cases p) auto

lemma unsig_wake_all [simp]: "(\<exists>p \<in> set (wake_all P). unsig p) = False"
  by (auto simp: wake_all_def)

lemma unsig_pc_of: "unsig (pc_of st) \<longleftrightarrow> (\<exists>w. st = Block w)"
  by (cases st) auto

lemma post_loop_quiet:
  assumes "post_loop w lt b = (st, False, b')" "quiet b"
  shows "quiet b'"
  using assms by (auto simp: post_loop_def quiet_def Let_def split: if_splits)

lemma wait_loop_quiet:
  assumes "wait_loop w lt b = (st, woke, b')"
  shows "(\<forall>w'. st = Block w' \<longrightarrow> quiet b')"
    and "\<not> woke \<and> quiet b \<longrightarrow> quiet b'"
    and "st \<noteq> Segv"
  using assms
  by (auto simp: wait_loop_def quiet_def post_loop_def Let_def split: if_splits)

lemma wait_loop_left:
  assumes "wait_loop w lt b = (st, woke, b')"
  shows "threads_left b' = threads_left b"
  using assms by (auto simp: wait_loop_def post_loop_def Let_def split: if_splits)

lemma wait_loop_waker:
  assumes "wait_loop (threads_left b = 0) False b = (st, woke, b')" "\<not> interrupted b" "\<not> timeout b"
  shows "woke \<or> (\<exists>w'. st = Block w')"
  using assms by (auto simp: wait_loop_def post_loop_def split: if_splits)

lemma register_quiet:
  assumes "register cur b = (st, woke, b')"
  shows "(\<forall>w'. st = Block w' \<longrightarrow> quiet b') \<and>
     (quiet b \<longrightarrow> woke \<or> st = Segv \<or> (\<exists>w'. st = Block w')) \<and>
     (st \<noteq> Segv \<longrightarrow> threads_left b' \<le> threads_left b)"
proof -
  let ?b1 = "b\<lparr>threads_left := threads_left b - 1\<rparr>"
  have main: ?thesis
    if r: "wait_loop (threads_left b2 = 0) False b2 = (st, woke, b')"
      and b2: "threads_left b2 = threads_left b - 1" "interrupted b2 = interrupted b"
        "timeout b2 = timeout b" for b2
  proof -
    have "quiet b \<longrightarrow> woke \<or> (\<exists>w'. st = Block w')"
      using wait_loop_waker[OF r] b2 by (simp add: quiet_def)
    with wait_loop_quiet(1)[OF r] wait_loop_left[OF r] b2(1) show ?thesis by auto
  qed
  show ?thesis
  proof (cases cur)
    case None
    with assms have "wait_loop (threads_left ?b1 = 0) False ?b1 = (st, woke, b')"
      by (simp add: register_def)
    then show ?thesis by (rule main) simp_all
  next
    case (Some th)
    show ?thesis
    proof (cases "passed b")
      case None
      with Some assms have "st = Segv" by (simp add: register_def)
      then show ?thesis by simp
    next
      case (Some ps)
      let ?b2 = "?b1\<lparr>passed := Some (ps @ [th])\<rparr>"
      from Some \<open>cur = Some th\<close> assms
      have "wait_loop (threads_left ?b2 = 0) False ?b2 = (st, woke, b')"
        by (simp add: register_def)
      then show ?thesis by (rule main) simp_all
    qed
  qed
qed

lemma wait_enter_quiet:
  assumes "wait_enter cur b = (st, woke, b')"
  shows "(\<forall>w'. st = Block w' \<longrightarrow> quiet b') \<and>
     (\<not> woke \<and> quiet b \<and> st \<noteq> Segv \<and> (\<forall>w'. st \<noteq> Block w') \<longrightarrow> quiet b') \<and>
     (st \<noteq> Segv \<and> threads_left b \<le> count b \<longrightarrow> threads_left b' \<le> count b')"
proof -
  let ?b0 = "b\<lparr>num_in_wait := num_in_wait b + 1\<rparr>"
  let ?b1 = "?b0\<lparr>timeout := False, interrupted := False, wait_at_barrier := False,
                     threads_left := count ?b0\<rparr>"
  show ?thesis
  proof (cases "threads_left b = 0")
    case True
    show ?thesis
    proof (cases "passed b")
      case None
      with True assms have "st = Segv" by (simp add: wait_enter_def)
      then show ?thesis by simp
    next
      case (Some ps)
      with True assms have r: "register cur (?b1\<lparr>passed := Some []\<rparr>) = (st, woke, b')"
        by (simp add: wait_enter_def)
      from register_quiet[OF r] register_count[OF r] True show ?thesis
        by (auto simp: quiet_def)
    qed
  next
    case False
    show ?thesis
    proof (cases "interrupted b \<or> timeout b")
      case True
      with False assms have "st = Return True" "\<not> woke" "b' = b"
        by (auto simp: wait_enter_def)
      then show ?thesis by simp
    next
      case nf: False
      with False assms have r: "register cur ?b0 = (st, woke, b')"
        by (simp add: wait_enter_def)
      have "quiet ?b0" using False nf by (simp add: quiet_def)
      with register_quiet[OF r] register_count[OF r] show ?thesis
        by auto
    qed
  qed
qed

lemma finish_blocked_ok:
  assumes pre: "blocked_ok g" "Crashed \<notin> set (pcs g)" and t: "t < length (pcs g)"
    and c: "count b' = count (bar g)" "st \<noteq> Segv \<longrightarrow> threads_left b' \<le> count b'"
    and R1: "\<forall>w'. st = Block w' \<longrightarrow> quiet b'"
    and R2: "\<not> woke \<and> quiet (bar g) \<and> st \<noteq> Segv \<and> (\<forall>w'. st \<noteq> Block w') \<longrightarrow> quiet b'"
  shows "blocked_ok (finish t (st, woke, b') g)"
proof (cases "st = Segv \<or> (\<exists>w'. st = Block w')")
  case True
  then show ?thesis
  proof
    assume "st = Segv"
    then have "Crashed \<in> set (pcs (finish t (st, woke, b') g))"
      using t by (simp add: set_update_memI)
    then show ?thesis by (simp only: blocked_ok_def) simp
  next
    assume "\<exists>w'. st = Block w'"
    with R1 pre c show ?thesis by (auto simp: blocked_ok_def)
  qed
next
  case False
  then have ns: "\<not> unsig (pc_of st)" by (simp add: unsig_pc_of)
  show ?thesis
  proof (cases woke)
    case True
    have "\<not> unsig p" if "p \<in> set ((wake_all (pcs g))[t := pc_of st])" for p
      using in_set_upd[OF that] ns by (auto simp: wake_all_def)
    with pre c True False show ?thesis by (auto simp: blocked_ok_def)
  next
    case w: False
    have "\<exists>q \<in> set (pcs g). unsig q" if "p \<in> set ((pcs g)[t := pc_of st])" "unsig p" for p
      using in_set_upd[OF that(1)] ns that(2) by auto
    with pre c w R2 False show ?thesis by (auto simp: blocked_ok_def)
  qed
qed

lemma unsig_update:
  assumes "p \<in> set (P[t := q])" "unsig p" "\<not> unsig q"
  shows "\<exists>p \<in> set P. unsig p"
  using in_set_upd[OF assms(1)] assms(2,3) by auto

lemma blocked_ok_pcs:
  assumes "blocked_ok g" "bar g' = bar g"
    "\<And>p. p \<in> set (pcs g') \<Longrightarrow> unsig p \<Longrightarrow> \<exists>q \<in> set (pcs g). unsig q"
    "Crashed \<notin> set (pcs g)"
  shows "blocked_ok g'"
  using assms unfolding blocked_ok_def by metis

lemma blocked_ok_step:
  assumes ok: "blocked_ok g" and s: "step e g = Some g'"
  shows "blocked_ok g'"
proof -
  from s have nc: "Crashed \<notin> set (pcs g)" and d: "do_event e g = Some g'"
    by (auto simp: step_def split: if_splits)
  from ok nc have c0: "count (bar g) \<noteq> 0" and le: "threads_left (bar g) \<le> count (bar g)"
    by (auto simp: blocked_ok_def)
  have resume: "blocked_ok (finish t (wait_resume w sg (bar g)) g)"
    if t: "t < length (pcs g)" for t w sg
  proof -
    obtain st woke b' where r: "wait_loop w (\<not> sg) (bar g) = (st, woke, b')"
      by (cases "wait_loop w (\<not> sg) (bar g)") auto
    from wait_loop_quiet[OF r] wait_loop_left[OF r] wait_loop_count[OF r] le
    have "blocked_ok (finish t (st, woke, b') g)"
      by (intro finish_blocked_ok[OF ok nc t]) auto
    then show ?thesis by (simp add: wait_resume_def r)
  qed
  show ?thesis
  proof (cases e)
    case (Call t ok')
    with d have t: "t < length (pcs g)"
      and g': "g' = finish t (wait_enter (if ok' then Some t else None) (bar g)) g"
      by (auto split: if_splits)
    obtain st woke b' where r: "wait_enter (if ok' then Some t else None) (bar g) = (st, woke, b')"
      by (cases "wait_enter (if ok' then Some t else None) (bar g)") auto
    from wait_enter_quiet[OF r] wait_enter_count[OF r] le
    have "blocked_ok (finish t (st, woke, b') g)"
      by (intro finish_blocked_ok[OF ok nc t]) auto
    then show ?thesis by (simp add: g' r)
  next
    case (Wake t)
    with d obtain w where "t < length (pcs g)" "g' = finish t (wait_resume w True (bar g)) g"
      by (auto split: option.splits pc.splits bool.splits)
    with resume show ?thesis by simp
  next
    case (Timeout t)
    with d obtain w where "t < length (pcs g)" "g' = finish t (wait_resume w False (bar g)) g"
      by (auto split: option.splits pc.splits)
    with resume show ?thesis by simp
  next
    case (Sync t)
    with d have g': "g' = hard_sync t g" by (auto split: if_splits)
    show ?thesis
    proof (rule blocked_ok_pcs[OF ok _ _ nc])
      show "bar g' = bar g" by (simp add: g' hard_sync_def)
      fix p assume p: "p \<in> set (pcs g')" "unsig p"
      then consider "p \<in> set ((map release_pc (pcs g))[t := AfterHard])"
        | "p \<in> set ((pcs g)[t := InHard])" | "p \<in> set ((pcs g)[t := AfterHard])"
        by (auto simp: g' hard_sync_def Barrier_wait_def split: if_splits)
      then show "\<exists>q \<in> set (pcs g). unsig q"
      proof cases
        case 1
        from unsig_update[OF this p(2)] show ?thesis by auto
      next
        case 2
        from unsig_update[OF this p(2)] show ?thesis by auto
      next
        case 3
        from unsig_update[OF this p(2)] show ?thesis by auto
      qed
    qed
  next
    case (Leave t)
    with d have g': "bar g' = wait_leave (bar g)" "pcs g' = (pcs g)[t := Leaving]"
      by (auto split: if_splits)
    have "\<exists>q \<in> set (pcs g). unsig q" if "p \<in> set (pcs g')" "unsig p" for p
      using unsig_update[of p "pcs g" t Leaving] that by (simp add: g')
    with ok nc show ?thesis
      unfolding blocked_ok_def g'(1) by (auto simp: wait_leave_def quiet_def)
  next
    case (Ret t)
    with d have g': "bar g' = bar g" "pcs g' = (pcs g)[t := Returned (\<not> timeout (bar g))]"
      by (auto split: if_splits simp: wait_return_def)
    show ?thesis
    proof (rule blocked_ok_pcs[OF ok g'(1) _ nc])
      fix p assume "p \<in> set (pcs g')" "unsig p"
      then show "\<exists>q \<in> set (pcs g). unsig q"
        using unsig_update[of p "pcs g" t "Returned (\<not> timeout (bar g))"] by (simp add: g')
    qed
  next
    case Interrupt
    with d have "bar g' = interrupt (bar g)" "pcs g' = wake_all (pcs g)" by auto
    with c0 le show ?thesis by (simp add: blocked_ok_def interrupt_def)
  next
    case Reset
    with d have "bar g' = reset (bar g)" "pcs g' = pcs g" by auto
    with c0 show ?thesis by (simp add: blocked_ok_def reset_def quiet_def)
  qed
qed

lemma blocked_ok_run:
  assumes "blocked_ok g" "run tr g = Some g'"
  shows "blocked_ok g'"
  using assms
proof (induction tr arbitrary: g)
  case Nil
  then show ?case by simp
next
  case (Cons e es)
  from Cons.prems(2) obtain g1 where s: "step e g = Some g1" and r: "run es g1 = Some g'"
    by (auto split: option.splits)
  from Cons.IH[OF blocked_ok_step[OF Cons.prems(1) s] r] show ?case .
qed

lemma blocked_ok_init: "0 < c \<Longrightarrow> blocked_ok (init c garbage n)"
  by (simp add: blocked_ok_def init_def fresh_def)

lemma reachable_left_le_count:
  assumes "0 < c" "run tr (init c garbage n) = Some g" "Crashed \<notin> set (pcs g)"
  shows "threads_left (bar g) \<le> count (bar g)"
  using blocked_ok_run[OF blocked_ok_init[OF assms(1)] assms(2)] assms(3)
  by (simp add: blocked_ok_def)

text \<open>A signalled thread stays where it is until it goes on itself.\<close>

lemma signalled_stays:
  assumes t: "t < length (pcs g)" "pcs g ! t = Blocked w True"
    and s: "step e g = Some g'" and e: "e \<noteq> Wake t" "e \<noteq> Timeout t"
  shows "t < length (pcs g') \<and> pcs g' ! t = Blocked w True"
proof -
  from s have d: "do_event e g = Some g'"
    by (auto simp: step_def split: if_splits)
  have fin: "t < length (pcs (finish u r g)) \<and> pcs (finish u r g) ! t = Blocked w True"
    if "u \<noteq> t" for u r
    using that t by (cases r) (simp add: finish_def)
  show ?thesis
  proof (cases e)
    case (Call u ok)
    with d t have "u \<noteq> t"
      and g': "g' = finish u (wait_enter (if ok then Some u else None) (bar g)) g"
      by (auto split: if_splits)
    from fin[OF this(1)] show ?thesis unfolding g' .
  next
    case (Wake u)
    with e d obtain w' where "g' = finish u (wait_resume w' True (bar g)) g" "u \<noteq> t"
      by (auto split: option.splits pc.splits bool.splits)
    from fin[OF this(2)] show ?thesis unfolding \<open>g' = _\<close> .
  next
    case (Timeout u)
    with e d obtain w' where "g' = finish u (wait_resume w' False (bar g)) g" "u \<noteq> t"
      by (auto split: option.splits pc.splits)
    from fin[OF this(2)] show ?thesis unfolding \<open>g' = _\<close> .
  next
    case (Sync u)
    with d t have "u \<noteq> t" "g' = hard_sync u g" by (auto split: if_splits)
    with t show ?thesis by (simp add: hard_sync_def Barrier_wait_def)
  next
    case (Leave u)
    with d t have "u \<noteq> t" "pcs g' = (pcs g)[u := Leaving]" by (auto split: if_splits)
    with t show ?thesis by simp
  next
    case (Ret u)
    with d t have "u \<noteq> t" "pcs g' = (pcs g)[u := pc_of (wait_return (bar g))]"
      by (auto split: if_splits)
    with t show ?thesis by simp
  next
    case Interrupt
    with d t show ?thesis by auto
  next
    case Reset
    with d t show ?thesis by auto
  qed
qed

lemma signalled_stays_run:
  assumes "t < length (pcs g)" "pcs g ! t = Blocked w True"
    and "run tr g = Some g'" and "Wake t \<notin> set tr" "Timeout t \<notin> set tr"
  shows "t < length (pcs g') \<and> pcs g' ! t = Blocked w True"
  using assms
proof (induction tr arbitrary: g)
  case Nil
  then show ?case by simp
next
  case (Cons e es)
  from Cons.prems(3) obtain g1 where s: "step e g = Some g1" and r: "run es g1 = Some g'"
    by (auto split: option.splits)
  from Cons.prems(4,5) have e: "e \<noteq> Wake t" "e \<noteq> Timeout t" "Wake t \<notin> set es" "Timeout t \<notin> set es"
    by auto
  from signalled_stays[OF Cons.prems(1,2) s e(1,2)] Cons.IH[OF _ _ r e(3,4)]
  show ?case by blast
qed

text \<open>What a thread throws that goes on while the interrupted flag is set.\<close>

lemma resume_interrupted:
  assumes "interrupted b"
  shows "wait_resume w sg b = (Throw (InterruptedException (count b - threads_left b) (count b)),
           False, if sg then b else b\<lparr>timeout := True\<rparr>)"
  using assms by (simp add: wait_resume_def wait_loop_def post_loop_def)

subsection \<open>The in-wait counter\<close>

lemma counted_calls_update:
  assumes "t < length P"
  shows "counted_calls (P[t := p]) + (if counted (P ! t) then 1 else 0)
         = counted_calls P + (if counted p then 1 else 0)"
  using assms
proof (induction P arbitrary: t)
  case Nil
  then show ?case by simp
next
  case (Cons a P)
  show ?case
  proof (cases t)
    case 0
    then show ?thesis by (simp add: counted_calls_def)
  next
    case (Suc k)
    with Cons.prems have "k < length P" by simp
    from Cons.IH[OF this] Suc show ?thesis by (simp add: counted_calls_def)
  qed
qed

lemma counted_wake [simp]: "counted (wake_pc p) = counted p"
  by (cases p) auto

lemma counted_release [simp]: "counted (release_pc p) = counted p"
  by (cases p) auto

lemma counted_calls_wake_all [simp]: "counted_calls (wake_all P) = counted_calls P"
  by (induction P) (auto simp: counted_calls_def wake_all_def)

lemma counted_calls_release [simp]: "counted_calls (map release_pc P) = counted_calls P"
  by (induction P) (auto simp: counted_calls_def)

lemma counted_calls_finish:
  assumes "t < length (pcs g)"
  shows "counted_calls (pcs (finish t (st, woke, b) g)) + (if counted (pcs g ! t) then 1 else 0)
         = counted_calls (pcs g) + (if counted (pc_of st) then 1 else 0)"
proof -
  let ?Q = "if woke then wake_all (pcs g) else pcs g"
  have "t < length ?Q" "counted (?Q ! t) = counted (pcs g ! t)"
    "counted_calls ?Q = counted_calls (pcs g)"
    using assms by auto
  with counted_calls_update[of t ?Q "pc_of st"] show ?thesis by simp
qed

lemma post_loop_num: "post_loop w lt b = (st, woke, b') \<Longrightarrow>
    num_in_wait b' = num_in_wait b \<and> (\<forall>v. st \<noteq> Return v)"
  by (auto simp: post_loop_def Let_def split: if_splits)

lemma wait_loop_num: "wait_loop w lt b = (st, woke, b') \<Longrightarrow>
    num_in_wait b' = num_in_wait b \<and> (\<forall>v. st \<noteq> Return v)"
  by (auto simp: wait_loop_def split: if_splits dest: post_loop_num)

lemma register_num: "register cur b = (st, woke, b') \<Longrightarrow>
    num_in_wait b' = num_in_wait b \<and> (\<forall>v. st \<noteq> Return v)"
proof (cases cur)
  case None
  assume "register cur b = (st, woke, b')"
  with None wait_loop_num[of "threads_left b - 1 = 0" False "b\<lparr>threads_left := threads_left b - 1\<rparr>" st woke b']
  show ?thesis by (simp add: register_def)
next
  case (Some th)
  assume r: "register cur b = (st, woke, b')"
  show ?thesis
  proof (cases "passed b")
    case None
    with Some r show ?thesis by (auto simp: register_def)
  next
    case (Some ps)
    with \<open>cur = Some th\<close> r
      wait_loop_num[of "threads_left b - 1 = 0" False
        "b\<lparr>threads_left := threads_left b - 1, passed := Some (ps @ [th])\<rparr>" st woke b']
    show ?thesis by (simp add: register_def)
  qed
qed

lemma wait_enter_num:
  assumes "wait_enter cur b = (st, woke, b')"
  shows "num_in_wait b' = num_in_wait b + (if counted (pc_of st) then 1 else 0)"
proof -
  let ?b0 = "b\<lparr>num_in_wait := num_in_wait b + 1\<rparr>"
  let ?b1 = "?b0\<lparr>timeout := False, interrupted := False, wait_at_barrier := False,
                     threads_left := count ?b0\<rparr>"
  have reg: ?thesis if "register cur b2 = (st, woke, b')" "num_in_wait b2 = num_in_wait b + 1" for b2
  proof -
    from register_num[OF that(1)] that(2)
    have "num_in_wait b' = num_in_wait b + 1" "\<forall>v. st \<noteq> Return v" by simp_all
    then show ?thesis by (cases st) auto
  qed
  show ?thesis
  proof (cases "threads_left b = 0")
    case True
    show ?thesis
    proof (cases "passed b")
      case None
      with True assms show ?thesis by (auto simp: wait_enter_def)
    next
      case (Some ps)
      with True assms have "register cur (?b1\<lparr>passed := Some []\<rparr>) = (st, woke, b')"
        by (simp add: wait_enter_def)
      then show ?thesis by (rule reg) simp
    qed
  next
    case False
    show ?thesis
    proof (cases "interrupted b \<or> timeout b")
      case True
      with False assms show ?thesis by (auto simp: wait_enter_def)
    next
      case nf: False
      with False assms have "register cur ?b0 = (st, woke, b')"
        by (simp add: wait_enter_def)
      then show ?thesis by (rule reg) simp
    qed
  qed
qed

lemma in_wait_counter_step:
  assumes inv: "num_in_wait (bar g) = counted_calls (pcs g)" and s: "step e g = Some g'"
  shows "num_in_wait (bar g') = counted_calls (pcs g')"
proof -
  from s have d: "do_event e g = Some g'"
    by (auto simp: step_def split: if_splits)
  have resume: "num_in_wait (bar (finish t (wait_resume w sg (bar g)) g))
      = counted_calls (pcs (finish t (wait_resume w sg (bar g)) g))"
    if t: "t < length (pcs g)" "pcs g ! t = Blocked w s'" for t w sg s'
  proof -
    obtain st woke b' where r: "wait_loop w (\<not> sg) (bar g) = (st, woke, b')"
      by (cases "wait_loop w (\<not> sg) (bar g)") auto
    from wait_loop_num[OF r] have "counted (pc_of st)" "num_in_wait b' = num_in_wait (bar g)"
      by (cases st; simp)+
    with counted_calls_finish[OF t(1), of st woke b'] t(2) inv show ?thesis
      by (simp add: wait_resume_def r del: pcs_finish)
  qed
  show ?thesis
  proof (cases e)
    case (Call t ok)
    with d have t: "t < length (pcs g)" "pcs g ! t = NotCalled"
      and g': "g' = finish t (wait_enter (if ok then Some t else None) (bar g)) g"
      by (auto split: if_splits)
    obtain st woke b' where r: "wait_enter (if ok then Some t else None) (bar g) = (st, woke, b')"
      by (cases "wait_enter (if ok then Some t else None) (bar g)") auto
    from counted_calls_finish[OF t(1), of st woke b'] wait_enter_num[OF r] t(2) inv
    show ?thesis by (simp add: g' r del: pcs_finish)
  next
    case (Wake t)
    with d obtain w where "t < length (pcs g)" "pcs g ! t = Blocked w True"
      "g' = finish t (wait_resume w True (bar g)) g"
      by (auto split: option.splits pc.splits bool.splits)
    with resume show ?thesis by simp
  next
    case (Timeout t)
    with d obtain w s' where "t < length (pcs g)" "pcs g ! t = Blocked w s'"
      "g' = finish t (wait_resume w False (bar g)) g"
      by (auto split: option.splits pc.splits)
    with resume show ?thesis by simp
  next
    case (Sync t)
    with d have t: "t < length (pcs g)" "pcs g ! t = AfterSoft" and g': "g' = hard_sync t g"
      by (auto split: if_splits)
    have "counted_calls ((map release_pc (pcs g))[t := AfterHard]) = counted_calls (pcs g)"
      using counted_calls_update[of t "map release_pc (pcs g)" AfterHard] t by simp
    moreover have "counted_calls ((pcs g)[t := InHard]) = counted_calls (pcs g)"
      "counted_calls ((pcs g)[t := AfterHard]) = counted_calls (pcs g)"
      using counted_calls_update[of t "pcs g" InHard] counted_calls_update[of t "pcs g" AfterHard] t
      by simp_all
    ultimately show ?thesis
      using inv by (simp add: g' hard_sync_def Barrier_wait_def)
  next
    case (Leave t)
    with d have t: "t < length (pcs g)" "pcs g ! t = AfterHard"
      and g': "bar g' = wait_leave (bar g)" "pcs g' = (pcs g)[t := Leaving]"
      by (auto split: if_splits)
    from counted_calls_update[OF t(1), of Leaving] t(2) inv show ?thesis
      by (simp add: g' wait_leave_def)
  next
    case (Ret t)
    with d have t: "t < length (pcs g)" "pcs g ! t = Leaving"
      and g': "bar g' = bar g" "pcs g' = (pcs g)[t := Returned (\<not> timeout (bar g))]"
      by (auto split: if_splits simp: wait_return_def)
    from counted_calls_update[OF t(1), of "Returned (\<not> timeout (bar g))"] t(2) inv show ?thesis
      by (simp add: g')
  next
    case Interrupt
    with d inv show ?thesis by (auto simp: interrupt_def)
  next
    case Reset
    with d inv show ?thesis by (auto simp: reset_def)
  qed
qed

text \<open>
  In every state that a constructed barrier reaches, the in-wait counter is the number of
  calls between the increment and the decrement, the calls that have thrown or crashed
  included; so the decrement of lines 305 to 310 is never made on a counter that is zero.
\<close>

lemma in_wait_counter:
  assumes "run tr (init c garbage n) = Some g"
  shows "num_in_wait (bar g) = counted_calls (pcs g)"
proof -
  have "num_in_wait (bar g0) = counted_calls (pcs g0) \<Longrightarrow> run tr g0 = Some g \<Longrightarrow>
      num_in_wait (bar g) = counted_calls (pcs g)" for g0
  proof (induction tr arbitrary: g0)
    case Nil
    then show ?case by simp
  next
    case (Cons e es)
    from Cons.prems(2) obtain g1 where s: "step e g0 = Some g1" and r: "run es g1 = Some g"
      by (auto split: option.splits)
    from Cons.IH[OF in_wait_counter_step[OF Cons.prems(1) s] r] show ?case .
  qed
  moreover have "num_in_wait (bar (init c garbage n)) = counted_calls (pcs (init c garbage n))"
    by (simp add: init_def fresh_def counted_calls_def)
  ultimately show ?thesis using assms by blast
qed

lemma run_count_length:
  assumes "run tr g = Some g'"
  shows "count (bar g') = count (bar g) \<and> length (pcs g') = length (pcs g)"
  using assms
proof (induction tr arbitrary: g)
  case Nil
  then show ?case by simp
next
  case (Cons e es)
  from Cons.prems obtain g1 where s: "step e g = Some g1" and r: "run es g1 = Some g'"
    by (auto split: option.splits)
  from s have "do_event e g = Some g1" by (simp add: step_def split: if_splits)
  from do_event_count_length[OF this] Cons.IH[OF r] show ?case by simp
qed

lemma init_count_length [simp]:
  "count (bar (init c garbage n)) = c" "length (pcs (init c garbage n)) = n"
  by (simp_all add: init_def fresh_def)

lemma round_passed:
  assumes "round_inv ht g"
  shows "\<exists>ps. passed (bar g) = Some ps"
proof -
  from assms consider garbage where "g = init (length (pcs g)) garbage (length (pcs g))"
    | "filling ht (bar g) (pcs g)" | "timed_out ht (bar g) (pcs g)"
    | "released ht (bar g) (pcs g)" | "leaving ht (bar g) (pcs g)"
    unfolding round_inv_def by blast
  then show ?thesis
  proof cases
    case 1
    then have "bar g = fresh (length (pcs g)) garbage"
      by (metis init_def system.select_convs(1))
    then show ?thesis by (simp add: fresh_def)
  next
    case 2
    then show ?thesis unfolding filling_def by blast
  next
    case 3
    then show ?thesis unfolding timed_out_def by blast
  next
    case 4
    then show ?thesis unfolding released_def by blast
  next
    case 5
    then show ?thesis unfolding leaving_def by blast
  qed
qed

subsection \<open>A round without timeout and interrupt\<close>




subsection \<open>A round that may time out\<close>

text \<open>
  Claim C6 fails on the code.  The value of \<open>wait()\<close> is \<open>!timeout_\<close>, read in line 312 after the
  mutex has been released in line 310, so it is the flag of whatever round the barrier is
  in when the caller gets to its return statement, not the outcome of the round the
  caller registered in.  A barrier of count 2: threads 0 and 1 complete a round (the
  remaining count is zero, no timeout, both are past \<open>Barrier::wait()\<close> and have
  decremented the in-wait counter), thread 1 returns true; before thread 0 runs its
  return statement a third call starts the next round and its timeout elapses; thread 0
  then returns false, although its round completed normally.  The other way round: the
  only caller of a round times out and decrements the in-wait counter,
  \<open>no_threads_in_wait()\<close> holds, \<open>reset()\<close> is called, and the caller then returns
  true, although its round timed out.
\<close>

theorem return_value_read_after_unlock:
  "run [Call 0 True, Call 1 True, Wake 0, Sync 0, Sync 1, Leave 0, Leave 1, Ret 1]
     (init 2 False 3)
     = Some \<lparr>bar = \<lparr>count = 2, threads_left = 0, passed = Some [0, 1], interrupted = False,
                    timeout = False, wait_at_barrier = True, num_in_wait = 0\<rparr>,
              pcs = [Leaving, Returned True, NotCalled]\<rparr> \<and>
   run [Call 2 True, Timeout 2, Ret 0]
     \<lparr>bar = \<lparr>count = 2, threads_left = 0, passed = Some [0, 1], interrupted = False,
                    timeout = False, wait_at_barrier = True, num_in_wait = 0\<rparr>,
              pcs = [Leaving, Returned True, NotCalled]\<rparr>
     = Some \<lparr>bar = \<lparr>count = 2, threads_left = 1, passed = Some [2], interrupted = False,
                    timeout = True, wait_at_barrier = False, num_in_wait = 1\<rparr>,
              pcs = [Returned False, Returned True, AfterSoft]\<rparr> \<and>
   run [Call 0 True, Timeout 0, Sync 0, Leave 0] (init 2 False 1)
     = Some \<lparr>bar = \<lparr>count = 2, threads_left = 1, passed = Some [0], interrupted = False,
                    timeout = True, wait_at_barrier = False, num_in_wait = 0\<rparr>,
              pcs = [Leaving]\<rparr> \<and>
   no_threads_in_wait \<lparr>count = 2, threads_left = 1, passed = Some [0], interrupted = False,
                    timeout = True, wait_at_barrier = False, num_in_wait = 0\<rparr> \<and>
   run [Reset, Ret 0]
     \<lparr>bar = \<lparr>count = 2, threads_left = 1, passed = Some [0], interrupted = False,
                    timeout = True, wait_at_barrier = False, num_in_wait = 0\<rparr>,
              pcs = [Leaving]\<rparr>
     = Some \<lparr>bar = \<lparr>count = 2, threads_left = 2, passed = None, interrupted = False,
                    timeout = False, wait_at_barrier = False, num_in_wait = 0\<rparr>,
              pcs = [Returned True]\<rparr>"
proof -
  have a: "run [Call 0 True, Call 1 True, Wake 0, Sync 0, Sync 1, Leave 0, Leave 1, Ret 1]
     (init 2 False 3)
     = Some \<lparr>bar = \<lparr>count = 2, threads_left = 0, passed = Some [0, 1], interrupted = False,
                    timeout = False, wait_at_barrier = True, num_in_wait = 0\<rparr>,
              pcs = [Leaving, Returned True, NotCalled]\<rparr>"
    by code_simp
  have b: "run [Call 2 True, Timeout 2, Ret 0]
     \<lparr>bar = \<lparr>count = 2, threads_left = 0, passed = Some [0, 1], interrupted = False,
                    timeout = False, wait_at_barrier = True, num_in_wait = 0\<rparr>,
              pcs = [Leaving, Returned True, NotCalled]\<rparr>
     = Some \<lparr>bar = \<lparr>count = 2, threads_left = 1, passed = Some [2], interrupted = False,
                    timeout = True, wait_at_barrier = False, num_in_wait = 1\<rparr>,
              pcs = [Returned False, Returned True, AfterSoft]\<rparr>"
    by code_simp
  have c: "run [Call 0 True, Timeout 0, Sync 0, Leave 0] (init 2 False 1)
     = Some \<lparr>bar = \<lparr>count = 2, threads_left = 1, passed = Some [0], interrupted = False,
                    timeout = True, wait_at_barrier = False, num_in_wait = 0\<rparr>,
              pcs = [Leaving]\<rparr>"
    by code_simp
  have d: "no_threads_in_wait \<lparr>count = 2, threads_left = 1, passed = Some [0],
                    interrupted = False, timeout = True, wait_at_barrier = False,
                    num_in_wait = 0\<rparr>"
    by (simp add: no_threads_in_wait_def)
  have e: "run [Reset, Ret 0]
     \<lparr>bar = \<lparr>count = 2, threads_left = 1, passed = Some [0], interrupted = False,
                    timeout = True, wait_at_barrier = False, num_in_wait = 0\<rparr>,
              pcs = [Leaving]\<rparr>
     = Some \<lparr>bar = \<lparr>count = 2, threads_left = 2, passed = None, interrupted = False,
                    timeout = False, wait_at_barrier = False, num_in_wait = 0\<rparr>,
              pcs = [Returned True]\<rparr>"
    by code_simp
  from a b c d e show ?thesis by (intro conjI)
qed

text \<open>
  What does hold is a statement about a barrier that is used for one round only.  On a
  fresh barrier with count \<open>n\<close> that up to \<open>n\<close> threads call, with timeouts but
  without \<open>interrupt()\<close>, without \<open>reset()\<close> and without calls beyond the \<open>n\<close>-th:
  no call throws; a call that has registered (it is in the passed list) and has returned
  has returned the negation of the timed-out flag, so true when the round completed
  normally and false when it timed out, and this for every registered caller, not only
  the one whose timeout elapsed; the flag, once set, stays set; as long as a thread is
  inside \<open>wait()\<close> some thread inside \<open>wait()\<close> can go on (possibly by its timeout
  elapsing); and no run has more than \<open>6 * n\<close> steps, so every call that is made ends.
\<close>

theorem timed_out_round_returns_false:
  assumes n: "0 < n" and tr: "\<forall>e \<in> set tr. round_event ht e"
    and run: "run tr (init n garbage n) = Some g"
  shows "(\<forall>t < n. \<forall>x. pcs g ! t \<noteq> Raised x) \<and>
         (\<forall>t < n. \<forall>v ps. pcs g ! t = Returned v \<and> passed_threads (bar g) = Some ps \<and> t \<in> set ps
              \<longrightarrow> v = (\<not> timeout (bar g))) \<and>
         (\<forall>e g'. round_event ht e \<and> step e g = Some g' \<and> timeout (bar g) \<longrightarrow> timeout (bar g')) \<and>
         ((\<exists>t < n. inside (pcs g ! t)) \<longrightarrow>
            (\<exists>u. step (Wake u) g \<noteq> None \<or> step (Timeout u) g \<noteq> None \<or>
                 step (Sync u) g \<noteq> None \<or> step (Leave u) g \<noteq> None \<or> step (Ret u) g \<noteq> None)) \<and>
         length tr \<le> 6 * n"
proof -
  have inv: "round_inv ht g" by (rule round_run[OF round_init[OF n] tr run])
  have len: "length (pcs g) = n" using run_count_length[OF run] by simp
  have a: "\<forall>t < n. \<forall>x. pcs g ! t \<noteq> Raised x"
    using round_no_exception[OF inv] len by blast
  have b: "\<forall>t < n. \<forall>v ps. pcs g ! t = Returned v \<and> passed_threads (bar g) = Some ps \<and> t \<in> set ps
              \<longrightarrow> v = (\<not> timeout (bar g))"
  proof (intro allI impI, elim conjE)
    fix t v ps
    assume "t < n" "pcs g ! t = Returned v" "passed_threads (bar g) = Some ps" "t \<in> set ps"
    with round_returned[OF inv, of t v] len show "v = (\<not> timeout (bar g))"
      by (auto simp: passed_threads_def)
  qed
  have c: "\<forall>e g'. round_event ht e \<and> step e g = Some g' \<and> timeout (bar g) \<longrightarrow> timeout (bar g')"
    using round_timeout_stays[OF inv] by blast
  have d: "(\<exists>t < n. inside (pcs g ! t)) \<longrightarrow>
            (\<exists>u. step (Wake u) g \<noteq> None \<or> step (Timeout u) g \<noteq> None \<or>
                 step (Sync u) g \<noteq> None \<or> step (Leave u) g \<noteq> None \<or> step (Ret u) g \<noteq> None)"
    using round_progress_inside[OF inv] len by blast
  have e: "length tr \<le> 6 * n"
    using round_length[OF round_init[OF n] tr run] by (simp add: work_init)
  from a b c d e show ?thesis by blast
qed

theorem timed_out_round_returns_false_witness:
  "(0::nat) < 3 \<and>
   list_all (round_event (\<lambda>t. True)) [Call 0 True, Call 1 True, Timeout 0, Wake 1, Sync 0, Sync 1,
     Leave 0, Leave 1, Ret 0, Ret 1] \<and>
   run [Call 0 True, Call 1 True, Timeout 0, Wake 1, Sync 0, Sync 1, Leave 0, Leave 1,
        Ret 0, Ret 1] (init 3 False 3)
     = Some \<lparr>bar = \<lparr>count = 3, threads_left = 1, passed = Some [0, 1], interrupted = False,
                    timeout = True, wait_at_barrier = False, num_in_wait = 0\<rparr>,
              pcs = [Returned False, Returned False, NotCalled]\<rparr> \<and>
   False = (\<not> timeout \<lparr>count = 3, threads_left = 1, passed = Some [0, 1],
              interrupted = False, timeout = True, wait_at_barrier = False, num_in_wait = 0\<rparr>) \<and>
   length [Call 0 True, Call 1 True, Timeout 0, Wake 1, Sync 0, Sync 1, Leave 0, Leave 1,
        Ret 0, Ret 1] \<le> 6 * 3"
proof -
  let ?tr = "[Call 0 True, Call 1 True, Timeout 0, Wake 1, Sync 0, Sync 1, Leave 0, Leave 1,
        Ret 0, Ret 1]"
  let ?g = "\<lparr>bar = \<lparr>count = 3, threads_left = 1, passed = Some [0, 1], interrupted = False,
                    timeout = True, wait_at_barrier = False, num_in_wait = 0\<rparr>,
              pcs = [Returned False, Returned False, NotCalled]\<rparr>"
  have h1: "(0::nat) < 3" by simp
  have h2: "\<forall>e \<in> set ?tr. round_event (\<lambda>t. True) e" by simp
  have h3: "run ?tr (init 3 False 3) = Some ?g" by code_simp
  from timed_out_round_returns_false[where ht = "\<lambda>t. True", OF h1 h2 h3] h3 show ?thesis
    by simp
qed

subsection \<open>Calls on a barrier whose round has failed\<close>

text \<open>
  Claim C10.  While the interrupted or the timed-out flag is set and the round is
  incomplete (the remaining count is not zero), a call of \<open>wait()\<close> returns true in its
  first critical section: it does not block, it does not throw, it calls no \<open>wake_all()\<close>,
  and it leaves the barrier as it was (the remaining count, the passed list and the
  in-wait counter included).  True is also what the return statement of a round that did
  not time out yields, so the value does not tell the two apart.
\<close>

theorem late_call_returns_true:
  assumes "interrupted b \<or> timeout b" and "threads_left b \<noteq> 0" and "\<not> timeout b0"
  shows "wait_enter cur b = (Return True, False, b) \<and> wait_return b0 = fst (wait_enter cur b)"
proof -
  from assms(1,2) have "failed b" by (simp add: failed_def)
  from wait_enter_failed[OF this] assms(3) show ?thesis
    by (simp add: wait_return_def)
qed

theorem late_call_returns_true_witness:
  "interrupted (interrupt \<lparr>count = 2, threads_left = 1, passed = Some [0], interrupted = False,
        timeout = False, wait_at_barrier = False, num_in_wait = 1\<rparr>) \<and>
   threads_left (interrupt \<lparr>count = 2, threads_left = 1, passed = Some [0], interrupted = False,
        timeout = False, wait_at_barrier = False, num_in_wait = 1\<rparr>) \<noteq> 0 \<and>
   wait_enter (Some 1) (interrupt \<lparr>count = 2, threads_left = 1, passed = Some [0],
        interrupted = False, timeout = False, wait_at_barrier = False, num_in_wait = 1\<rparr>)
     = (Return True, False, \<lparr>count = 2, threads_left = 1, passed = Some [0],
        interrupted = True, timeout = False, wait_at_barrier = False, num_in_wait = 1\<rparr>) \<and>
   wait_return (fresh 2 False) = Return True"
proof -
  let ?b = "interrupt \<lparr>count = 2, threads_left = 1, passed = Some [0], interrupted = False,
        timeout = False, wait_at_barrier = False, num_in_wait = 1\<rparr>"
  have h1: "interrupted ?b \<or> timeout ?b" by (simp add: interrupt_def)
  have h2: "threads_left ?b \<noteq> 0" by (simp add: interrupt_def)
  have h3: "\<not> timeout (fresh 2 False)" by (simp add: fresh_def)
  from late_call_returns_true[OF h1 h2 h3, of "Some 1"] h1 h2 show ?thesis
    by (simp add: interrupt_def)
qed

text \<open>
  Claim C4.  From a state in which a failure flag is set and the round is incomplete,
  whatever the threads do afterwards short of \<open>reset()\<close>, the flag stays set and the
  remaining count and the passed list stay as they are; and any thread that then calls
  \<open>wait()\<close> returns (true) in its first critical section, the barrier unchanged: no new
  round starts before \<open>reset()\<close>.
\<close>

theorem failed_round_rejects_callers:
  assumes "interrupted (bar g) \<or> timeout (bar g)" and "threads_left (bar g) \<noteq> 0"
    and "Crashed \<notin> set (pcs g)"
    and "Reset \<notin> set tr" and "run tr g = Some g'"
    and "t < length (pcs g')" and "pcs g' ! t = NotCalled"
  shows "step (Call t ok) g' = Some (g'\<lparr>pcs := (pcs g')[t := Returned True]\<rparr>) \<and>
         (interrupted (bar g') \<or> timeout (bar g')) \<and>
         threads_left (bar g') = threads_left (bar g) \<and>
         passed_threads (bar g') = passed_threads (bar g)"
proof -
  from assms(1,2) have f: "failed (bar g)" by (simp add: failed_def)
  from failed_run[OF f assms(4,5,3)]
  have f': "failed (bar g')" and same: "threads_left (bar g') = threads_left (bar g)"
    "passed (bar g') = passed (bar g)" and nc: "Crashed \<notin> set (pcs g')"
    by simp_all
  have "step (Call t ok) g' = Some (finish t (Return True, False, bar g') g')"
    using assms(6,7) nc wait_enter_failed[OF f'] by (simp add: step_def)
  moreover have "finish t (Return True, False, bar g') g' = g'\<lparr>pcs := (pcs g')[t := Returned True]\<rparr>"
    by (simp add: finish_def)
  ultimately show ?thesis
    using f' same by (simp add: failed_def passed_threads_def)
qed

theorem failed_round_rejects_callers_witness:
  "timeout (bar \<lparr>bar = \<lparr>count = 2, threads_left = 1, passed = Some [0],
        interrupted = False, timeout = True, wait_at_barrier = False, num_in_wait = 1\<rparr>,
        pcs = [AfterSoft, NotCalled, NotCalled]\<rparr>) \<and>
   Reset \<notin> set [Sync 0, Call 1 True, Leave 0] \<and>
   run [Sync 0, Call 1 True, Leave 0]
     \<lparr>bar = \<lparr>count = 2, threads_left = 1, passed = Some [0],
        interrupted = False, timeout = True, wait_at_barrier = False, num_in_wait = 1\<rparr>,
        pcs = [AfterSoft, NotCalled, NotCalled]\<rparr>
    = Some \<lparr>bar = \<lparr>count = 2, threads_left = 1, passed = Some [0],
        interrupted = False, timeout = True, wait_at_barrier = False, num_in_wait = 0\<rparr>,
        pcs = [Leaving, Returned True, NotCalled]\<rparr> \<and>
   step (Call 2 True) \<lparr>bar = \<lparr>count = 2, threads_left = 1, passed = Some [0],
        interrupted = False, timeout = True, wait_at_barrier = False, num_in_wait = 0\<rparr>,
        pcs = [Leaving, Returned True, NotCalled]\<rparr>
    = Some \<lparr>bar = \<lparr>count = 2, threads_left = 1, passed = Some [0],
        interrupted = False, timeout = True, wait_at_barrier = False, num_in_wait = 0\<rparr>,
        pcs = [Leaving, Returned True, Returned True]\<rparr>"
proof -
  let ?g = "\<lparr>bar = \<lparr>count = 2, threads_left = 1, passed = Some [0],
        interrupted = False, timeout = True, wait_at_barrier = False, num_in_wait = 1\<rparr>,
        pcs = [AfterSoft, NotCalled, NotCalled]\<rparr>"
  let ?g' = "\<lparr>bar = \<lparr>count = 2, threads_left = 1, passed = Some [0],
        interrupted = False, timeout = True, wait_at_barrier = False, num_in_wait = 0\<rparr>,
        pcs = [Leaving, Returned True, NotCalled]\<rparr>"
  let ?tr = "[Sync 0, Call 1 True, Leave 0]"
  have h1: "interrupted (bar ?g) \<or> timeout (bar ?g)" by simp
  have h2: "threads_left (bar ?g) \<noteq> 0" by simp
  have h3: "Crashed \<notin> set (pcs ?g)" by simp
  have h4: "Reset \<notin> set ?tr" by simp
  have h5: "run ?tr ?g = Some ?g'" by code_simp
  have h6: "2 < length (pcs ?g')" by simp
  have h7: "pcs ?g' ! 2 = NotCalled" by simp
  from failed_round_rejects_callers[OF h1 h2 h3 h4 h5 h6 h7, of True] h4 h5 show ?thesis
    by simp
qed

lemma stuck_wake_all: "list_all stuck_pc P \<Longrightarrow> wake_all P = P"
  unfolding wake_all_def by (induction P) (auto elim: stuck_pc.elims)

lemma stuck_at:
  assumes "list_all stuck_pc (pcs g)" "at g t = Some p"
  shows "stuck_pc p"
  using assms by (auto simp: at_def list_all_length split: if_splits)

lemma stuck_do_event:
  assumes "list_all stuck_pc (pcs g)"
  shows "do_event e g = None \<or>
     (e = Interrupt \<or> e = Reset) \<and> (\<exists>g'. do_event e g = Some g' \<and> pcs g' = pcs g)"
proof (cases e)
  case (Call t ok)
  then show ?thesis using stuck_at[OF assms, of t NotCalled] by auto
next
  case (Wake t)
  then show ?thesis using stuck_at[OF assms, of t]
    by (auto split: option.splits pc.splits bool.splits)
next
  case (Timeout t)
  then show ?thesis using stuck_at[OF assms, of t]
    by (auto split: option.splits pc.splits)
next
  case (Sync t)
  then show ?thesis using stuck_at[OF assms, of t AfterSoft] by auto
next
  case (Leave t)
  then show ?thesis using stuck_at[OF assms, of t AfterHard] by auto
next
  case (Ret t)
  then show ?thesis using stuck_at[OF assms, of t Leaving] by auto
next
  case Interrupt
  then show ?thesis using stuck_wake_all[OF assms] by simp
next
  case Reset
  then show ?thesis by simp
qed

lemma stuck_step:
  assumes "pcs g = p # P" "list_all stuck_pc (p # P)"
  shows "step e g = None \<or> e = Interrupt \<or> e = Reset"
  using stuck_do_event[of g e] assms by (auto simp: step_def)

lemma stuck_run:
  assumes "pcs g = p # P" "list_all stuck_pc (p # P)" "run tr g = Some g'"
  shows "pcs g' = p # P"
  using assms
proof (induction tr arbitrary: g)
  case Nil
  then show ?case by simp
next
  case (Cons e es)
  from Cons.prems(3) obtain g1 where s: "step e g = Some g1" and r: "run es g1 = Some g'"
    by (auto split: option.splits)
  from s have "do_event e g = Some g1" by (simp add: step_def split: if_splits)
  with stuck_do_event[of g e] Cons.prems(1,2) have "pcs g1 = p # P" by auto
  from Cons.IH[OF this Cons.prems(2) r] show ?case .
qed

subsection \<open>Interrupting blocked threads\<close>

text \<open>
  Claim C5.  The claim holds for a thread that \<open>interrupt()\<close> finds blocked in an
  incomplete round, and fails once the last party has arrived.  A barrier of count 2:
  thread 0 blocks, thread 1 arrives as the last party, signals thread 0, leaves the
  critical section and enters \<open>Barrier::wait()\<close>; \<open>interrupt()\<close> is called before thread 0
  has gone on.  Thread 0 then throws, reporting 2 of 2, and never gets to
  \<open>Barrier::wait()\<close>, where thread 1 is blocked inside its call of \<open>wait()\<close>: thread 1
  raises nothing, no step of either thread is possible any more, and whatever
  \<open>interrupt()\<close> and \<open>reset()\<close> are called afterwards, it stays there.  With a third
  caller: \<open>interrupt()\<close> is called when threads 0 and 1 have arrived and thread 0 is still
  blocked; a third call starts the next round before thread 0 has gone on and clears the
  interrupted flag; thread 0 then finds parties missing and no flag set, and blocks again
  instead of throwing.
\<close>

theorem interrupt_after_last_arrival:
  "run [Call 0 True, Call 1 True, Sync 1] (init 2 False 2)
     = Some \<lparr>bar = \<lparr>count = 2, threads_left = 0, passed = Some [0, 1], interrupted = False,
                    timeout = False, wait_at_barrier = True, num_in_wait = 2\<rparr>,
              pcs = [Blocked False True, InHard]\<rparr> \<and>
   run [Interrupt, Wake 0]
     \<lparr>bar = \<lparr>count = 2, threads_left = 0, passed = Some [0, 1], interrupted = False,
                    timeout = False, wait_at_barrier = True, num_in_wait = 2\<rparr>,
              pcs = [Blocked False True, InHard]\<rparr>
     = Some \<lparr>bar = \<lparr>count = 2, threads_left = 0, passed = Some [0, 1], interrupted = True,
                    timeout = False, wait_at_barrier = True, num_in_wait = 2\<rparr>,
              pcs = [Raised (InterruptedException 2 2), InHard]\<rparr> \<and>
   (\<forall>e. step e \<lparr>bar = \<lparr>count = 2, threads_left = 0, passed = Some [0, 1],
                    interrupted = True, timeout = False, wait_at_barrier = True,
                    num_in_wait = 2\<rparr>,
              pcs = [Raised (InterruptedException 2 2), InHard]\<rparr> = None \<or>
        e = Interrupt \<or> e = Reset) \<and>
   (\<forall>tr. case run tr \<lparr>bar = \<lparr>count = 2, threads_left = 0, passed = Some [0, 1],
                    interrupted = True, timeout = False, wait_at_barrier = True,
                    num_in_wait = 2\<rparr>,
              pcs = [Raised (InterruptedException 2 2), InHard]\<rparr> of
           None \<Rightarrow> True
         | Some g \<Rightarrow> pcs g = [Raised (InterruptedException 2 2), InHard]) \<and>
   run [Call 0 True, Call 1 True, Interrupt, Call 2 True] (init 2 False 3)
     = Some \<lparr>bar = \<lparr>count = 2, threads_left = 1, passed = Some [2], interrupted = False,
                    timeout = False, wait_at_barrier = False, num_in_wait = 3\<rparr>,
              pcs = [Blocked False True, AfterSoft, Blocked False False]\<rparr> \<and>
   step (Wake 0)
     \<lparr>bar = \<lparr>count = 2, threads_left = 1, passed = Some [2], interrupted = False,
                    timeout = False, wait_at_barrier = False, num_in_wait = 3\<rparr>,
              pcs = [Blocked False True, AfterSoft, Blocked False False]\<rparr>
     = Some \<lparr>bar = \<lparr>count = 2, threads_left = 1, passed = Some [2], interrupted = False,
                    timeout = False, wait_at_barrier = False, num_in_wait = 3\<rparr>,
              pcs = [Blocked False False, AfterSoft, Blocked False False]\<rparr>"
proof -
  let ?g = "\<lparr>bar = \<lparr>count = 2, threads_left = 0, passed = Some [0, 1],
                    interrupted = True, timeout = False, wait_at_barrier = True,
                    num_in_wait = 2\<rparr>,
              pcs = [Raised (InterruptedException 2 2), InHard]\<rparr>"
  have a: "run [Call 0 True, Call 1 True, Sync 1] (init 2 False 2)
     = Some \<lparr>bar = \<lparr>count = 2, threads_left = 0, passed = Some [0, 1], interrupted = False,
                    timeout = False, wait_at_barrier = True, num_in_wait = 2\<rparr>,
              pcs = [Blocked False True, InHard]\<rparr>"
    by code_simp
  have b: "run [Interrupt, Wake 0]
     \<lparr>bar = \<lparr>count = 2, threads_left = 0, passed = Some [0, 1], interrupted = False,
                    timeout = False, wait_at_barrier = True, num_in_wait = 2\<rparr>,
              pcs = [Blocked False True, InHard]\<rparr> = Some ?g"
    by code_simp
  have c: "step e ?g = None \<or> e = Interrupt \<or> e = Reset" for e
    using stuck_step[of ?g "Raised (InterruptedException 2 2)" "[InHard]" e] by simp
  have d: "case run tr ?g of None \<Rightarrow> True
         | Some g \<Rightarrow> pcs g = [Raised (InterruptedException 2 2), InHard]" for tr
    using stuck_run[of ?g "Raised (InterruptedException 2 2)" "[InHard]" tr]
    by (simp split: option.splits)
  have e: "run [Call 0 True, Call 1 True, Interrupt, Call 2 True] (init 2 False 3)
     = Some \<lparr>bar = \<lparr>count = 2, threads_left = 1, passed = Some [2], interrupted = False,
                    timeout = False, wait_at_barrier = False, num_in_wait = 3\<rparr>,
              pcs = [Blocked False True, AfterSoft, Blocked False False]\<rparr>"
    by code_simp
  have f: "step (Wake 0)
     \<lparr>bar = \<lparr>count = 2, threads_left = 1, passed = Some [2], interrupted = False,
                    timeout = False, wait_at_barrier = False, num_in_wait = 3\<rparr>,
              pcs = [Blocked False True, AfterSoft, Blocked False False]\<rparr>
     = Some \<lparr>bar = \<lparr>count = 2, threads_left = 1, passed = Some [2], interrupted = False,
                    timeout = False, wait_at_barrier = False, num_in_wait = 3\<rparr>,
              pcs = [Blocked False False, AfterSoft, Blocked False False]\<rparr>"
    by code_simp
  from a b c d e f show ?thesis by (intro conjI allI)
qed

text \<open>
  What does hold concerns a thread that is blocked and has not been signalled, which
  means that parties are missing.  Let a barrier with count \<open>c\<close> have reached some state
  in which thread \<open>t\<close> is blocked in \<open>reltimed_wait\<close> and not signalled, and let
  \<open>interrupt()\<close> be called there.  Then the
  remaining count is not zero and at most \<open>c\<close>, so \<open>K = c - threads_left\<close> parties have
  arrived.  Whatever the other threads do afterwards short of \<open>reset()\<close>, \<open>t\<close> stays
  signalled and the remaining count stays the same; and when \<open>t\<close> goes on, be it woken or
  by its timeout, it throws the \<open>InterruptedException\<close> that reports \<open>K\<close> of \<open>c\<close>.
\<close>

theorem interrupt_raises_in_blocked:
  assumes c: "0 < c" and reach: "run tr0 (init c garbage n) = Some g"
    and t: "t < n" "pcs g ! t = Blocked w False"
    and int: "step Interrupt g = Some g1"
    and tr: "run tr g1 = Some g2" "Reset \<notin> set tr" "Wake t \<notin> set tr" "Timeout t \<notin> set tr"
  shows "threads_left (bar g) \<noteq> 0 \<and> threads_left (bar g) \<le> c \<and>
         threads_left (bar g2) = threads_left (bar g) \<and> count (bar g2) = c \<and>
         (\<exists>g3. step (Wake t) g2 = Some g3 \<and>
               pcs g3 ! t = Raised (InterruptedException (c - threads_left (bar g)) c)) \<and>
         (\<exists>g3. step (Timeout t) g2 = Some g3 \<and>
               pcs g3 ! t = Raised (InterruptedException (c - threads_left (bar g)) c))"
proof -
  from run_count_length[OF reach] have cl: "count (bar g) = c" "length (pcs g) = n" by simp_all
  from int have nc: "Crashed \<notin> set (pcs g)"
    and g1: "g1 = \<lparr>bar = interrupt (bar g), pcs = wake_all (pcs g)\<rparr>"
    by (auto simp: step_def split: if_splits)
  have ok: "blocked_ok g" by (rule blocked_ok_run[OF blocked_ok_init[OF c] reach])
  have "unsig (pcs g ! t)" "pcs g ! t \<in> set (pcs g)"
    using t cl nth_mem[of t "pcs g"] by simp_all
  with ok nc have q: "quiet (bar g)" and le: "threads_left (bar g) \<le> c"
    using cl by (auto simp: blocked_ok_def)
  then have l0: "threads_left (bar g) \<noteq> 0" by (simp add: quiet_def)
  have f1: "failed (bar g1)" "interrupted (bar g1)" "Crashed \<notin> set (pcs g1)"
    "threads_left (bar g1) = threads_left (bar g)" "count (bar g1) = c"
    using l0 nc cl by (simp_all add: g1 failed_def interrupt_def)
  have t1: "t < length (pcs g1)" "pcs g1 ! t = Blocked w True"
    using t cl by (simp_all add: g1)
  from failed_run[OF f1(1) tr(2) tr(1) f1(3)] f1
  have f2: "interrupted (bar g2)" "threads_left (bar g2) = threads_left (bar g)"
    "count (bar g2) = c" "Crashed \<notin> set (pcs g2)"
    by simp_all
  from signalled_stays_run[OF t1 tr(1) tr(3,4)]
  have t2: "t < length (pcs g2)" "pcs g2 ! t = Blocked w True" by simp_all
  have thr: "pcs (finish t (wait_resume w sg (bar g2)) g2) ! t
      = Raised (InterruptedException (c - threads_left (bar g)) c)" for sg
    using t2(1) f2 by (simp add: resume_interrupted)
  have "step (Wake t) g2 = Some (finish t (wait_resume w True (bar g2)) g2)"
    "step (Timeout t) g2 = Some (finish t (wait_resume w False (bar g2)) g2)"
    using t2 f2(4) by (simp_all add: step_def at_def)
  with thr l0 le f2 show ?thesis by simp
qed

theorem interrupt_raises_in_blocked_witness:
  "(0::nat) < 3 \<and>
   run [Call 0 True, Call 1 True] (init 3 False 4)
     = Some \<lparr>bar = \<lparr>count = 3, threads_left = 1, passed = Some [0, 1], interrupted = False,
                    timeout = False, wait_at_barrier = False, num_in_wait = 2\<rparr>,
              pcs = [Blocked False False, Blocked False False, NotCalled, NotCalled]\<rparr> \<and>
   step Interrupt
       \<lparr>bar = \<lparr>count = 3, threads_left = 1, passed = Some [0, 1], interrupted = False,
                    timeout = False, wait_at_barrier = False, num_in_wait = 2\<rparr>,
              pcs = [Blocked False False, Blocked False False, NotCalled, NotCalled]\<rparr>
     = Some \<lparr>bar = \<lparr>count = 3, threads_left = 1, passed = Some [0, 1], interrupted = True,
                    timeout = False, wait_at_barrier = False, num_in_wait = 2\<rparr>,
              pcs = [Blocked False True, Blocked False True, NotCalled, NotCalled]\<rparr> \<and>
   run [Call 2 True, Wake 1]
       \<lparr>bar = \<lparr>count = 3, threads_left = 1, passed = Some [0, 1], interrupted = True,
                    timeout = False, wait_at_barrier = False, num_in_wait = 2\<rparr>,
              pcs = [Blocked False True, Blocked False True, NotCalled, NotCalled]\<rparr>
     = Some \<lparr>bar = \<lparr>count = 3, threads_left = 1, passed = Some [0, 1], interrupted = True,
                    timeout = False, wait_at_barrier = False, num_in_wait = 2\<rparr>,
              pcs = [Blocked False True, Raised (InterruptedException 2 3), Returned True,
                     NotCalled]\<rparr> \<and>
   (\<exists>g3. step (Wake 0)
       \<lparr>bar = \<lparr>count = 3, threads_left = 1, passed = Some [0, 1], interrupted = True,
                    timeout = False, wait_at_barrier = False, num_in_wait = 2\<rparr>,
              pcs = [Blocked False True, Raised (InterruptedException 2 3), Returned True,
                     NotCalled]\<rparr> = Some g3 \<and>
      pcs g3 ! 0 = Raised (InterruptedException 2 3))"
proof -
  let ?g = "\<lparr>bar = \<lparr>count = 3, threads_left = 1, passed = Some [0, 1], interrupted = False,
                    timeout = False, wait_at_barrier = False, num_in_wait = 2\<rparr>,
              pcs = [Blocked False False, Blocked False False, NotCalled, NotCalled]\<rparr>"
  let ?g1 = "\<lparr>bar = \<lparr>count = 3, threads_left = 1, passed = Some [0, 1], interrupted = True,
                    timeout = False, wait_at_barrier = False, num_in_wait = 2\<rparr>,
              pcs = [Blocked False True, Blocked False True, NotCalled, NotCalled]\<rparr>"
  let ?g2 = "\<lparr>bar = \<lparr>count = 3, threads_left = 1, passed = Some [0, 1], interrupted = True,
                    timeout = False, wait_at_barrier = False, num_in_wait = 2\<rparr>,
              pcs = [Blocked False True, Raised (InterruptedException 2 3), Returned True,
                     NotCalled]\<rparr>"
  have h1: "(0::nat) < 3" by simp
  have h2: "run [Call 0 True, Call 1 True] (init 3 False 4) = Some ?g" by code_simp
  have h3: "(0::nat) < 4" by simp
  have h4: "pcs ?g ! 0 = Blocked False False" by simp
  have h5: "step Interrupt ?g = Some ?g1" by code_simp
  have h6: "run [Call 2 True, Wake 1] ?g1 = Some ?g2" by code_simp
  have h7: "Reset \<notin> set [Call 2 True, Wake 1]" "Wake 0 \<notin> set [Call 2 True, Wake 1]"
    "Timeout 0 \<notin> set [Call 2 True, Wake 1]" by simp_all
  from interrupt_raises_in_blocked[OF h1 h2 h3 h4 h5 h6 h7] h2 h5 h6 show ?thesis
    by simp
qed

subsection \<open>The in-wait counter, \<open>reset()\<close>, copying\<close>

text \<open>
  Claim C2 fails on the code.  A call of \<open>wait()\<close> that throws the
  \<open>InterruptedException\<close> (lines 278 to 285) unlocks the mutex and throws without the
  decrement that the early return (line 245) and the normal return (line 308) make.  With
  count 2: one thread calls \<open>wait()\<close> and blocks, \<open>interrupt()\<close> is called, the thread
  goes on and throws.  No thread is inside \<open>wait()\<close> then, the counter is 1, and
  \<open>no_threads_in_wait()\<close> is false.  (In general the counter keeps counting the calls
  that have thrown: lemma \<open>in_wait_counter\<close>.)
\<close>

theorem interrupted_wait_leaves_counter:
  "run [Call 0 True, Interrupt, Wake 0] (init 2 False 1)
     = Some \<lparr>bar = \<lparr>count = 2, threads_left = 1, passed = Some [0], interrupted = True,
                    timeout = False, wait_at_barrier = False, num_in_wait = 1\<rparr>,
              pcs = [Raised (InterruptedException 1 2)]\<rparr> \<and>
   no_threads_in_wait \<lparr>count = 2, threads_left = 1, passed = Some [0], interrupted = True,
                    timeout = False, wait_at_barrier = False, num_in_wait = 1\<rparr> = False \<and>
   num_in_wait (bar (init 2 False 1)) = 0"
  by code_simp

text \<open>
  Claim C3 fails on the code.  \<open>reset()\<close> clears the two flags and restores the remaining
  count, but \<open>passed_threads_.clear()\<close> in line 212 drops the reference instead of
  emptying the list (as \<open>passed_threads_->clear()\<close> in line 241 does): afterwards
  \<open>passed_threads()\<close> is the null reference, and the next caller of \<open>wait()\<close> that
  registers dereferences it.  With count 1: a round completes, \<open>reset()\<close> is called, a
  second thread calls \<open>wait()\<close>.
\<close>

theorem reset_drops_passed_list:
  "passed_threads (reset b) = None \<and>
   interrupted (reset b) = False \<and> timeout (reset b) = False \<and>
   threads_left (reset b) = count b \<and>
   run [Call 0 True, Sync 0, Leave 0, Ret 0, Reset, Call 1 True] (init 1 False 2)
     = Some \<lparr>bar = \<lparr>count = 1, threads_left = 0, passed = None, interrupted = False,
                    timeout = False, wait_at_barrier = True, num_in_wait = 1\<rparr>,
              pcs = [Returned True, Crashed]\<rparr>"
proof -
  have "run [Call 0 True, Sync 0, Leave 0, Ret 0, Reset, Call 1 True] (init 1 False 2)
     = Some \<lparr>bar = \<lparr>count = 1, threads_left = 0, passed = None, interrupted = False,
                    timeout = False, wait_at_barrier = True, num_in_wait = 1\<rparr>,
              pcs = [Returned True, Crashed]\<rparr>"
    by code_simp
  then show ?thesis by (simp add: reset_def passed_threads_def)
qed

text \<open>
  Claim C7 fails on the code as it is stated: the copy constructors and the assignment
  operators of the barrier are defined, and what they do when they run is to throw an
  \<open>Exception\<close>, that is, they reject the operation by a runtime exception raised from the
  copy or the assignment itself.
\<close>

theorem barrier_assignment_throws_at_runtime:
  "operator_assign (fresh 1 False) (fresh 1 False)
     = Inl (Exception ''Barriers cannot be assigned'')"
  by (simp add: operator_assign_def)

text \<open>
  Claim C7, amended.  Whenever a copy constructor or an assignment operator of the barrier
  runs, it throws the \<open>Exception\<close> ``Barriers cannot be copied'' or ``Barriers cannot
  be assigned'', and yields no barrier.
\<close>

theorem barrier_copy_and_assignment_throw:
  "copy_construct b = Inl (Exception ''Barriers cannot be copied'') \<and>
   copy_construct_ptr p = Inl (Exception ''Barriers cannot be copied'') \<and>
   operator_assign self b = Inl (Exception ''Barriers cannot be assigned'') \<and>
   operator_assign_ptr self p = Inl (Exception ''Barriers cannot be assigned'')"
  by (simp add: copy_construct_def copy_construct_ptr_def operator_assign_def
      operator_assign_ptr_def)

section \<open>Properties of the observers\<close>

lemma glob_match_star: "glob_match ps s \<Longrightarrow> glob_match (CHR ''*'' # ps) s"
  by (cases s) auto

lemma glob_match_star_append: "glob_match ps s \<Longrightarrow> glob_match (CHR ''*'' # ps) (w @ s)"
  by (induction w) (auto simp: glob_match_star)

lemma matches_glob_match: "matches p s \<Longrightarrow> glob_match p s"
  by (induction rule: matches.induct) (auto simp: glob_match_star_append)

lemma matches_star_cons:
  assumes "matches (CHR ''*'' # ps) s"
  shows "matches (CHR ''*'' # ps) (c # s)"
  using assms
proof (cases rule: matches.cases)
  case (star s' w)
  from matches.star[OF star(2), of "c # w"] star(1) show ?thesis by simp
next
  case (literal s')
  then show ?thesis by simp
qed

lemma glob_match_matches: "glob_match p s \<Longrightarrow> matches p s"
proof (induction p s rule: glob_match.induct)
  case (1 s)
  then show ?case by (simp add: matches.empty)
next
  case (2 p ps)
  then have "matches ps []" "p = CHR ''*''" by simp_all
  from matches.star[OF this(1), of "[]"] this(2) show ?case by simp
next
  case (3 p ps c cs)
  show ?case
  proof (cases "p = CHR ''*''")
    case True
    with 3 consider "matches ps (c # cs)" | "matches (p # ps) cs" by auto
    then show ?thesis
    proof cases
      case 1
      from matches.star[OF this, of "[]"] True show ?thesis by simp
    next
      case 2
      with True matches_star_cons show ?thesis by simp
    qed
  next
    case False
    with 3 have "p = c" "matches ps cs" by auto
    with False show ?thesis by (simp add: matches.literal)
  qed
qed

lemma glob_match_iff: "glob_match p s \<longleftrightarrow> matches p s"
  using glob_match_matches matches_glob_match by blast

lemma interested_iff:
  "interested (bbio_observed_create ob) ty ident \<longleftrightarrow>
     (\<exists>tp ip. observes ob tp ip \<and> matches tp ty \<and> matches ip ident)"
  unfolding interested_def observes_def list_ex_iff glob_match_iff by fast

lemma count_list_notify:
  assumes "distinct (map fst obs)" "(i, ob) \<in> set obs"
  shows "count_list (notify_created ty ident obs) i
         = (if interested (bbio_observed_create ob) ty ident then 1 else 0)"
  using assms
proof (induction obs)
  case Nil
  then show ?case by simp
next
  case (Cons a obs)
  obtain j ob' where a: "a = (j, ob')" by (cases a)
  show ?case
  proof (cases "j = i")
    case True
    with Cons.prems a have "ob' = ob" and ni: "i \<notin> fst ` set obs"
      by (auto simp: image_iff)
    from ni have "count_list (notify_created ty ident obs) i = 0"
      by (auto simp: notify_created_def count_list_0_iff image_iff)
    with True a \<open>ob' = ob\<close> show ?thesis by (simp add: notify_created_def)
  next
    case False
    with Cons.prems a have "(i, ob) \<in> set obs" "distinct (map fst obs)" by auto
    from Cons.IH[OF this(2,1)] False a show ?thesis
      by (simp add: notify_created_def)
  qed
qed

lemma add_observed_set:
  "(\<exists>ids. (tp', ids) \<in> set (add_observed tp ip m) \<and> ip' \<in> set ids) \<longleftrightarrow>
   (\<exists>ids. (tp', ids) \<in> set m \<and> ip' \<in> set ids) \<or> (tp' = tp \<and> ip' = ip)"
  by (induction tp ip m rule: add_observed.induct) auto

lemma observes_add:
  "observes (bbio_add_observed_create tp ip ob) tp' ip' \<longleftrightarrow>
     observes ob tp' ip' \<or> (tp' = tp \<and> ip' = ip)"
  by (simp add: observes_def bbio_add_observed_create_def add_observed_set)

text \<open>
  Claim C8.  Registering with a type pattern only registers the pair of that pattern and
  \<open>*\<close>, and \<open>*\<close> matches every id.  Registering a pair adds that pair to the pairs the
  observer has.  When the creation of \<open>(ty, ident)\<close> is notified to a list of observers
  with distinct numbers, an observer gets exactly one callback when one of its pairs
  matches the event (however many of them do), where matching lets \<open>*\<close> stand for any
  sequence and any other character for itself, and no callback otherwise.
\<close>

theorem created_callback_once_per_matching_observer:
  assumes "distinct (map fst obs)" and "(i, ob) \<in> set obs"
  shows "bbio_add_observed_create_default tp ob0 = bbio_add_observed_create tp ''*'' ob0 \<and>
         glob_match ''*'' any_id \<and>
         (observes (bbio_add_observed_create tp ip ob0) tp' ip' \<longleftrightarrow>
            observes ob0 tp' ip' \<or> (tp' = tp \<and> ip' = ip)) \<and>
         (glob_match pat s \<longleftrightarrow> matches pat s) \<and>
         count_list (notify_created ty ident obs) i
           = (if \<exists>tp ip. observes ob tp ip \<and> glob_match tp ty \<and> glob_match ip ident
              then 1 else 0)"
proof -
  have "matches ''*'' (any_id @ [])"
    by (intro matches.star matches.empty)
  then have "glob_match ''*'' any_id" by (simp add: glob_match_iff)
  with count_list_notify[OF assms, of ty ident] show ?thesis
    by (simp add: bbio_add_observed_create_default_def observes_add glob_match_iff
        interested_iff)
qed

theorem created_callback_once_per_matching_observer_witness:
  "distinct (map fst [(0::nat, bbio_add_observed_create ''L*'' ''f*''
       (bbio_add_observed_create_default ''La*''
          \<lparr>bbio_observed_create = [], bbio_observed_destroy = []\<rparr>))]) \<and>
   notify_created ''Laser'' ''front''
     [(0, bbio_add_observed_create ''L*'' ''f*''
       (bbio_add_observed_create_default ''La*''
          \<lparr>bbio_observed_create = [], bbio_observed_destroy = []\<rparr>))] = [0] \<and>
   count_list (notify_created ''Laser'' ''front''
     [(0, bbio_add_observed_create ''L*'' ''f*''
       (bbio_add_observed_create_default ''La*''
          \<lparr>bbio_observed_create = [], bbio_observed_destroy = []\<rparr>))]) 0 = 1 \<and>
   count_list (notify_created ''Camera'' ''front''
     [(0, bbio_add_observed_create ''L*'' ''f*''
       (bbio_add_observed_create_default ''La*''
          \<lparr>bbio_observed_create = [], bbio_observed_destroy = []\<rparr>))]) 0 = 0"
proof -
  let ?ob = "bbio_add_observed_create ''L*'' ''f*''
       (bbio_add_observed_create_default ''La*''
          \<lparr>bbio_observed_create = [], bbio_observed_destroy = []\<rparr>)"
  have h1: "distinct (map fst [(0::nat, ?ob)])" by simp
  have h2: "(0, ?ob) \<in> set [(0::nat, ?ob)]" by simp
  have e1: "notify_created ''Laser'' ''front'' [(0, ?ob)] = [0]" by code_simp
  have e2: "notify_created ''Camera'' ''front'' [(0, ?ob)] = []" by code_simp
  from created_callback_once_per_matching_observer[OF h1 h2, of _ _ _ _ _ _ _ _ "''Laser''" "''front''"]
    h1 e1 e2 show ?thesis by simp
qed

section \<open>Properties of the wake adapter\<close>

lemma callback_other_thread:
  "waker_thread w \<noteq> T \<Longrightarrow> bb_interface_message_received w ths T = ths T"
  by (simp add: bb_interface_message_received_def)

lemma callback_mode [simp]:
  "op_mode (bb_interface_message_received w ths T) = op_mode (ths T)"
  by (simp add: bb_interface_message_received_def wakeup_def)

lemma callback_signals_mono:
  "sleep_signals (ths T) \<le> sleep_signals (bb_interface_message_received w ths T)"
  by (simp add: bb_interface_message_received_def wakeup_def)

lemma fold_callback_untouched:
  assumes "\<forall>w \<in> set ws. waker_thread w \<noteq> T"
  shows "fold bb_interface_message_received ws ths T = ths T"
  using assms by (induction ws arbitrary: ths) (simp_all add: callback_other_thread)

lemma fold_callback_continuous:
  assumes "op_mode (ths T) \<noteq> OPMODE_WAITFORWAKEUP"
  shows "fold bb_interface_message_received ws ths T = ths T"
  using assms
proof (induction ws arbitrary: ths)
  case Nil
  then show ?case by simp
next
  case (Cons w ws)
  have "bb_interface_message_received w ths T = ths T"
    using Cons.prems by (auto simp add: bb_interface_message_received_def)
  with Cons show ?case by simp
qed

lemma fold_callback_signals_mono:
  "sleep_signals (ths T) \<le> sleep_signals (fold bb_interface_message_received ws ths T)"
proof (induction ws arbitrary: ths)
  case Nil
  then show ?case by simp
next
  case (Cons w ws)
  from callback_signals_mono[of ths T w] Cons[of "bb_interface_message_received w ths"]
  show ?case by simp
qed

lemma fold_callback_wakes:
  assumes "w \<in> set ws" "waker_thread w = T" "op_mode (ths T) = OPMODE_WAITFORWAKEUP"
  shows "sleep_signals (ths T) < sleep_signals (fold bb_interface_message_received ws ths T)"
  using assms
proof (induction ws arbitrary: ths)
  case Nil
  then show ?case by simp
next
  case (Cons a ws)
  show ?case
  proof (cases "a = w")
    case True
    with Cons.prems have "sleep_signals (ths T) < sleep_signals (bb_interface_message_received a ths T)"
      by (simp add: bb_interface_message_received_def wakeup_def)
    with fold_callback_signals_mono[of "bb_interface_message_received a ths" T ws]
    show ?thesis by simp
  next
    case False
    with Cons.prems have "w \<in> set ws" by simp
    from Cons.IH[OF this Cons.prems(2), of "bb_interface_message_received a ths"] Cons.prems(3)
      callback_signals_mono[of ths T a]
    show ?thesis by simp
  qed
qed

text \<open>
  Claim C9.  The callback of an adapter calls \<open>wakeup()\<close> on its thread when the thread
  is in wait-for-wakeup mode, and does nothing otherwise.  When a message on interface
  \<open>y\<close> is notified to the registered adapters: a thread that no adapter bound to \<open>y\<close>
  wakes is left as it is; a thread that is not in wait-for-wakeup mode is left as it is;
  and a thread in wait-for-wakeup mode that an adapter bound to \<open>y\<close> wakes has its sleep
  condition signalled.
\<close>

theorem waker_wakes_waiting_thread_of_its_interface:
  assumes "w \<in> set listeners" and "waker_thread w = T"
  shows "bb_interface_message_received w ths
           = (if op_mode (ths T) = OPMODE_WAITFORWAKEUP then ths(T := wakeup (ths T)) else ths) \<and>
         wakeup (ths T) \<noteq> ths T \<and>
         ((\<forall>v \<in> set listeners. waker_thread v = T \<longrightarrow> waker_interface v \<noteq> y) \<longrightarrow>
            notify_message y listeners ths T = ths T) \<and>
         (op_mode (ths T) \<noteq> OPMODE_WAITFORWAKEUP \<longrightarrow> notify_message y listeners ths T = ths T) \<and>
         (waker_interface w = y \<and> op_mode (ths T) = OPMODE_WAITFORWAKEUP \<longrightarrow>
            sleep_signals (ths T) < sleep_signals (notify_message y listeners ths T))"
proof -
  have a: "bb_interface_message_received w ths
           = (if op_mode (ths T) = OPMODE_WAITFORWAKEUP then ths(T := wakeup (ths T)) else ths)"
    using assms(2) by (simp add: bb_interface_message_received_def)
  have "sleep_signals (wakeup (ths T)) \<noteq> sleep_signals (ths T)" by (simp add: wakeup_def)
  then have b: "wakeup (ths T) \<noteq> ths T" by metis
  have c: "notify_message y listeners ths T = ths T"
    if "\<forall>v \<in> set listeners. waker_thread v = T \<longrightarrow> waker_interface v \<noteq> y"
    unfolding notify_message_def using that by (intro fold_callback_untouched) auto
  have d: "notify_message y listeners ths T = ths T" if "op_mode (ths T) \<noteq> OPMODE_WAITFORWAKEUP"
    unfolding notify_message_def using that by (rule fold_callback_continuous)
  have e: "sleep_signals (ths T) < sleep_signals (notify_message y listeners ths T)"
    if "waker_interface w = y" "op_mode (ths T) = OPMODE_WAITFORWAKEUP"
    unfolding notify_message_def using that assms
    by (intro fold_callback_wakes[of w]) auto
  from a b c d e show ?thesis by blast
qed

theorem waker_wakes_waiting_thread_of_its_interface_witness:
  "\<lparr>waker_interface = 7, waker_thread = 0\<rparr> \<in> set [\<lparr>waker_interface = 7, waker_thread = 0\<rparr>] \<and>
   notify_message 7 [\<lparr>waker_interface = 7, waker_thread = 0\<rparr>]
     (\<lambda>t. \<lparr>op_mode = OPMODE_WAITFORWAKEUP, pending_wakeups = 0, coalesce_wakeups = True,
           sleep_signals = 0\<rparr>) 0
     = \<lparr>op_mode = OPMODE_WAITFORWAKEUP, pending_wakeups = 1, coalesce_wakeups = True,
           sleep_signals = 1\<rparr> \<and>
   notify_message 8 [\<lparr>waker_interface = 7, waker_thread = 0\<rparr>]
     (\<lambda>t. \<lparr>op_mode = OPMODE_WAITFORWAKEUP, pending_wakeups = 0, coalesce_wakeups = True,
           sleep_signals = 0\<rparr>) 0
     = \<lparr>op_mode = OPMODE_WAITFORWAKEUP, pending_wakeups = 0, coalesce_wakeups = True,
           sleep_signals = 0\<rparr> \<and>
   notify_message 7 [\<lparr>waker_interface = 7, waker_thread = 0\<rparr>]
     (\<lambda>t. \<lparr>op_mode = OPMODE_CONTINUOUS, pending_wakeups = 0, coalesce_wakeups = True,
           sleep_signals = 0\<rparr>) 0
     = \<lparr>op_mode = OPMODE_CONTINUOUS, pending_wakeups = 0, coalesce_wakeups = True,
           sleep_signals = 0\<rparr>"
proof -
  let ?w = "\<lparr>waker_interface = 7, waker_thread = 0\<rparr>"
  let ?ths = "\<lambda>t::nat. \<lparr>op_mode = OPMODE_WAITFORWAKEUP, pending_wakeups = 0,
       coalesce_wakeups = True, sleep_signals = 0\<rparr>"
  have h1: "?w \<in> set [?w]" by simp
  have h2: "waker_thread ?w = 0" by simp
  from waker_wakes_waiting_thread_of_its_interface[OF h1 h2, of ?ths 7] h1 show ?thesis
    by (simp add: notify_message_def bb_interface_message_received_def wakeup_def)
qed

end
